theory Spec2Isabelle
  imports Main "HOL-Library.Word"
begin

section \<open>The logging subsystem of base/log.cpp\<close>

text \<open>
  A shallow embedding of \<^verbatim>\<open>src/base/log.cpp\<close>: the global registry
  (\<^verbatim>\<open>global_logger\<close>, the thread-local \<^verbatim>\<open>scope_logger\<close> and \<^verbatim>\<open>in_logger\<close>), the
  formatting entry point \<^verbatim>\<open>log_log_impl\<close>, and the sinks \<^verbatim>\<open>CLoggerCollection\<close>,
  \<^verbatim>\<open>CLoggerAsync\<close> and \<^verbatim>\<open>CFutureLogger\<close>.

  Loggers are objects in a store, reached through pointers (\<open>None\<close> is \<^verbatim>\<open>nullptr\<close>), so
  that a logger shared between a collection and another holder is one object. A virtual
  call \<^verbatim>\<open>p->Log(msg)\<close> looks the object up and runs the body of its class. A call through
  a null pointer, a failed \<^verbatim>\<open>dbg_assert\<close> and a recursion that never ends are results of
  their own: the first two are errors, the last is \<open>None\<close> (the functions that follow
  pointers take a bound on the depth of nested calls).
\<close>

subsection \<open>Records\<close>

datatype LEVEL = LEVEL_ERROR | LEVEL_WARN | LEVEL_INFO | LEVEL_DEBUG | LEVEL_TRACE

text \<open>
  Modelled from the spec: \<^verbatim>\<open>LOG_COLOR\<close> and \<^verbatim>\<open>CLogMessage\<close> are declared in logger.h, which
  is not among the sources. The fields are the ones log.cpp reads and writes; a colour is
  a 24-bit RGB value, one byte for each of \<^verbatim>\<open>r\<close>, \<^verbatim>\<open>g\<close> and \<^verbatim>\<open>b\<close>.
\<close>

datatype LOG_COLOR = LOG_COLOR (color_r: "8 word") (color_g: "8 word") (color_b: "8 word")

text \<open>
  A character array of the record holds its bytes up to the terminating NUL; for
  \<open>m_aLine\<close> these are the bytes that \<^verbatim>\<open>str_length\<close> counted.
\<close>

record CLogMessage =
  m_Level :: LEVEL
  m_HaveColor :: bool
  m_Color :: LOG_COLOR
  m_aTimestamp :: string
  m_TimestampLength :: nat
  m_aSystem :: string
  m_SystemLength :: nat
  m_aLine :: string
  m_LineMessageOffset :: nat
  m_LineLength :: nat

subsection \<open>Strings\<close>

text \<open>
  Modelled from the spec: \<^verbatim>\<open>str_length\<close>, \<^verbatim>\<open>str_copy\<close>, \<^verbatim>\<open>str_format\<close> and
  \<^verbatim>\<open>str_timestamp_format\<close> are defined in base/system.cpp, which is not among the sources.
  A C string ends at its first NUL; copying and formatting into a buffer of \<open>size\<close> bytes
  keep at most \<open>size - 1\<close> bytes and terminate them (silent truncation to the fixed
  maximum length). \<open>str_format\<close> takes the expansion of its format string.
\<close>

definition c_str :: "string \<Rightarrow> string" where
  "c_str mem = takeWhile (\<lambda>c. c \<noteq> CHR 0x00) mem"

definition str_length :: "string \<Rightarrow> nat" where
  "str_length mem = length (c_str mem)"

definition str_copy :: "string \<Rightarrow> nat \<Rightarrow> string" where
  "str_copy src dst_size = take (dst_size - 1) (c_str src)"

definition str_format :: "nat \<Rightarrow> string \<Rightarrow> string" where
  "str_format buffer_size expansion = take (buffer_size - 1) (c_str expansion)"

definition str_timestamp_format :: "nat \<Rightarrow> string \<Rightarrow> string" where
  "str_timestamp_format buffer_size now = take (buffer_size - 1) (c_str now)"

text \<open>The conversion \<^verbatim>\<open>%d\<close> of a non-negative number: its decimal digits.\<close>

fun dec :: "nat \<Rightarrow> string" where
  "dec n = (if n < 10 then [''0123456789'' ! n]
            else dec (n div 10) @ [''0123456789'' ! (n mod 10)])"

declare dec.simps [simp del]

text \<open>
  The C library's \<^verbatim>\<open>vsnprintf\<close> stores at most \<open>n - 1\<close> bytes of the expansion and
  always terminates them. Microsoft's \<^verbatim>\<open>_vsnprintf\<close> stores at most \<open>n\<close> bytes and
  appends the NUL only when the expansion is shorter than \<open>n\<close>. Both return here the
  bytes they store at the destination.
\<close>

definition vsnprintf :: "nat \<Rightarrow> string \<Rightarrow> string" where
  "vsnprintf n expansion = (if n = 0 then [] else take (n - 1) expansion @ [CHR 0x00])"

definition msvc_vsnprintf :: "nat \<Rightarrow> string \<Rightarrow> string" where
  "msvc_vsnprintf n expansion =
     (if length expansion < n then expansion @ [CHR 0x00] else take n expansion)"

subsection \<open>The build and one call of the entry point\<close>

text \<open>
  What log.cpp takes from its build: whether \<^verbatim>\<open>CONF_FAMILY_WINDOWS\<close> is defined, and the
  sizes of the character arrays of \<^verbatim>\<open>CLogMessage\<close> (logger.h declares them).
  \<open>after_aLine\<close> is the memory that follows \<^verbatim>\<open>Msg.m_aLine\<close>: \<^verbatim>\<open>str_length\<close> reads on
  until it meets a NUL, so these bytes are read when the array itself holds none.
\<close>

record build =
  CONF_FAMILY_WINDOWS :: bool
  sizeof_aTimestamp :: nat
  sizeof_aSystem :: nat
  sizeof_aLine :: nat
  after_aLine :: string

text \<open>
  The arguments of \<^verbatim>\<open>log_log_impl\<close>. \<open>arg_text\<close> is the expansion of \<^verbatim>\<open>fmt\<close> with
  \<^verbatim>\<open>args\<close>, and \<open>arg_now\<close> the wall-clock time \<^verbatim>\<open>str_timestamp_format\<close> reads, in the
  format \<^verbatim>\<open>FORMAT_SPACE\<close>.
\<close>

record log_call =
  arg_level :: LEVEL
  arg_have_color :: bool
  arg_color :: LOG_COLOR
  arg_sys :: string
  arg_text :: string
  arg_now :: string

text \<open>Lines 84 to 111 of \<^verbatim>\<open>log_log_impl\<close>: the record it builds.\<close>

definition line_prefix :: "build \<Rightarrow> log_call \<Rightarrow> string" where
  "line_prefix B c =
     str_format (sizeof_aLine B)
       (''['' @ str_timestamp_format (sizeof_aTimestamp B) (arg_now c) @ ''][''
          @ str_copy (arg_sys c) (sizeof_aSystem B) @ '']: '')"

text \<open>
  The memory from the start of \<^verbatim>\<open>Msg.m_aLine\<close> after lines 94 to 107, as \<^verbatim>\<open>str_length\<close>
  reads it on line 111: the prefix, then the bytes that the formatting of the message
  stores at \<^verbatim>\<open>pMessage\<close>, then what lies behind them. When the stored bytes end in a NUL
  the bytes behind are never read; when they do not, they fill the array to its end and
  the bytes behind are those after the array.
\<close>

definition line_memory :: "build \<Rightarrow> log_call \<Rightarrow> string" where
  "line_memory B c =
     (let Prefix = line_prefix B c;
          MessageSize = sizeof_aLine B - str_length Prefix
      in Prefix
         @ (if CONF_FAMILY_WINDOWS B then msvc_vsnprintf MessageSize (arg_text c)
            else vsnprintf MessageSize (arg_text c))
         @ after_aLine B)"

definition build_message :: "build \<Rightarrow> log_call \<Rightarrow> CLogMessage" where
  "build_message B c =
     (let aTimestamp = str_timestamp_format (sizeof_aTimestamp B) (arg_now c);
          aSystem = str_copy (arg_sys c) (sizeof_aSystem B)
      in \<lparr> m_Level = arg_level c,
           m_HaveColor = arg_have_color c,
           m_Color = arg_color c,
           m_aTimestamp = aTimestamp,
           m_TimestampLength = str_length aTimestamp,
           m_aSystem = aSystem,
           m_SystemLength = str_length aSystem,
           m_aLine = c_str (line_memory B c),
           m_LineMessageOffset = str_length (line_prefix B c),
           m_LineLength = str_length (line_memory B c) \<rparr>)"

subsection \<open>The asynchronous stream\<close>

text \<open>
  Modelled from the spec: the \<^verbatim>\<open>aio_*\<close> functions are defined in base/system.cpp, which is
  not among the sources. An \<^verbatim>\<open>ASYNCIO\<close> is the sequence of the calls made on it; the bytes
  in its write queue are those of the writes, in order. \<open>nl\<close> is what
  \<^verbatim>\<open>aio_write_newline_unlocked\<close> writes.
\<close>

datatype aio_op = AioLock | AioWrite string | AioNewline | AioUnlock | AioClose | AioWait

type_synonym ASYNCIO = "aio_op list"

definition aio_lock :: "ASYNCIO \<Rightarrow> ASYNCIO" where
  "aio_lock aio = aio @ [AioLock]"

definition aio_write_unlocked :: "string \<Rightarrow> nat \<Rightarrow> ASYNCIO \<Rightarrow> ASYNCIO" where
  "aio_write_unlocked buffer sz aio = aio @ [AioWrite (take sz buffer)]"

definition aio_write_newline_unlocked :: "ASYNCIO \<Rightarrow> ASYNCIO" where
  "aio_write_newline_unlocked aio = aio @ [AioNewline]"

definition aio_unlock :: "ASYNCIO \<Rightarrow> ASYNCIO" where
  "aio_unlock aio = aio @ [AioUnlock]"

definition aio_close :: "ASYNCIO \<Rightarrow> ASYNCIO" where
  "aio_close aio = aio @ [AioClose]"

definition aio_wait :: "ASYNCIO \<Rightarrow> ASYNCIO" where
  "aio_wait aio = aio @ [AioWait]"

fun aio_queued :: "string \<Rightarrow> ASYNCIO \<Rightarrow> string" where
  "aio_queued nl [] = []"
| "aio_queued nl (AioWrite bytes # aio) = bytes @ aio_queued nl aio"
| "aio_queued nl (AioNewline # aio) = nl @ aio_queued nl aio"
| "aio_queued nl (_ # aio) = aio_queued nl aio"

text \<open>\<^verbatim>\<open>CLoggerAsync::Log\<close> (lines 216 to 240), on the stream of the logger.\<close>

definition aAnsi :: "CLogMessage \<Rightarrow> string" where
  "aAnsi Msg =
     (if m_HaveColor Msg
      then str_format 32
             (CHR 0x1B # ''[38;2;'' @ dec (unat (color_r (m_Color Msg))) @ '';''
                @ dec (unat (color_g (m_Color Msg))) @ '';''
                @ dec (unat (color_b (m_Color Msg))) @ ''m'')
      else str_copy (CHR 0x1B # ''[39m'') 32)"

definition CLoggerAsync_Log :: "bool \<Rightarrow> CLogMessage \<Rightarrow> ASYNCIO \<Rightarrow> ASYNCIO" where
  "CLoggerAsync_Log m_AnsiTruecolor Msg m_pAio =
     (let aio1 = aio_lock m_pAio;
          aio2 = (if m_AnsiTruecolor
                  then aio_write_unlocked (aAnsi Msg) (str_length (aAnsi Msg)) aio1
                  else aio1);
          aio3 = aio_write_unlocked (m_aLine Msg) (m_LineLength Msg) aio2;
          aio4 = aio_write_newline_unlocked aio3
      in aio_unlock aio4)"

text \<open>\<^verbatim>\<open>CLoggerAsync::GlobalFinish\<close> (lines 250 to 257).\<close>

definition CLoggerAsync_GlobalFinish :: "bool \<Rightarrow> ASYNCIO \<Rightarrow> ASYNCIO" where
  "CLoggerAsync_GlobalFinish m_Close m_pAio =
     aio_wait (if m_Close then aio_close m_pAio else m_pAio)"

subsection \<open>Loggers, the store and the registry\<close>

type_synonym addr = nat
type_synonym thread = nat

text \<open>
  The classes of log.cpp that implement \<^verbatim>\<open>ILogger\<close>, with their members. \<open>COtherLogger\<close>
  stands for an implementation from elsewhere (console.h names \<^verbatim>\<open>CConsoleLogger\<close>) and for
  the platform sinks, whose output is outside this model; its \<^verbatim>\<open>Log\<close> may itself call the
  entry point, and the member lists the calls it makes.
\<close>

datatype logger =
    CLoggerCollection "addr option list"
  | CLoggerAsync ASYNCIO bool bool
  | CFutureLogger "addr option" "CLogMessage list"
  | COtherLogger "log_call list"

text \<open>
  Every virtual call is recorded with the object that made it (\<open>None\<close> for a call from
  the registry or from outside the loggers), the object that received it and the method.
\<close>

datatype virtual = M_Log CLogMessage | M_GlobalFinish

datatype event = Call (caller: "addr option") (callee: addr) (meth: virtual)

datatype exit_fn = Fn_log_global_logger_finish

record world =
  heap :: "addr \<Rightarrow> logger option"
  calls :: "event list"
  global_logger :: "addr option"
  atexit_registered :: "exit_fn list"
  scope_logger :: "thread \<Rightarrow> addr option"
  in_logger :: "thread \<Rightarrow> bool"

datatype error = AssertFailed string | NullDeref

text \<open>A loop over a vector whose body may fail: it stops at the first failure.\<close>

fun each :: "('a \<Rightarrow> world \<Rightarrow> (error + world) option) \<Rightarrow> 'a list \<Rightarrow> world
    \<Rightarrow> (error + world) option" where
  "each f [] w = Some (Inr w)"
| "each f (x # xs) w =
     (case f x w of Some (Inr w') \<Rightarrow> each f xs w' | other \<Rightarrow> other)"

text \<open>
  Modelled from the spec: \<^verbatim>\<open>dbg_assert\<close> is defined in base/system.h, which is not among
  the sources. A failed assertion is fatal: the process ends with the message.
\<close>

definition dbg_assert :: "bool \<Rightarrow> string \<Rightarrow> world \<Rightarrow> error + world" where
  "dbg_assert test msg w = (if test then Inr w else Inl (AssertFailed msg))"

text \<open>\<^verbatim>\<open>std::atomic::compare_exchange_strong\<close>: success, and the value the atomic holds.\<close>

definition compare_exchange_strong ::
    "addr option \<Rightarrow> addr option \<Rightarrow> addr option \<Rightarrow> bool \<times> addr option" where
  "compare_exchange_strong obj expected desired =
     (if obj = expected then (True, desired) else (False, obj))"

subsection \<open>Virtual dispatch of Log, and the entry point\<close>

text \<open>
  \<open>ILogger_Log n B t from p Msg\<close> is the call \<^verbatim>\<open>p->Log(&Msg)\<close> made on thread \<open>t\<close> by the
  object \<open>from\<close>, where \<open>n\<close> bounds the depth of the calls nested in it, with the bodies of \<^verbatim>\<open>CLoggerCollection::Log\<close> (lines 182 to 188),
  \<^verbatim>\<open>CLoggerAsync::Log\<close> and \<^verbatim>\<open>CFutureLogger::Log\<close> (lines 398 to 409).
  \<open>log_log_impl\<close> is lines 66 to 114.
\<close>

fun ILogger_Log :: "nat \<Rightarrow> build \<Rightarrow> thread \<Rightarrow> addr option \<Rightarrow> addr option \<Rightarrow> CLogMessage
    \<Rightarrow> world \<Rightarrow> (error + world) option"
and log_log_impl :: "nat \<Rightarrow> build \<Rightarrow> thread \<Rightarrow> log_call \<Rightarrow> world \<Rightarrow> (error + world) option"
where
  "ILogger_Log 0 B t from p Msg w = None"
| "ILogger_Log (Suc n) B t from p Msg w =
     (case p of
        None \<Rightarrow> Some (Inl NullDeref)
      | Some a \<Rightarrow>
          (case heap w a of
             None \<Rightarrow> Some (Inl NullDeref)
           | Some obj \<Rightarrow>
               (let w1 = w\<lparr>calls := calls w @ [Call from a (M_Log Msg)]\<rparr> in
                case obj of
                  CLoggerCollection m_apLoggers \<Rightarrow>
                    each (\<lambda>pLogger. ILogger_Log n B t (Some a) pLogger Msg) m_apLoggers w1
                | CLoggerAsync m_pAio m_AnsiTruecolor m_Close \<Rightarrow>
                    Some (Inr (w1\<lparr>heap := (heap w1)(a \<mapsto>
                      CLoggerAsync (CLoggerAsync_Log m_AnsiTruecolor Msg m_pAio)
                        m_AnsiTruecolor m_Close)\<rparr>))
                | CFutureLogger m_pLogger m_aPending \<Rightarrow>
                    (case m_pLogger of
                       Some pLogger \<Rightarrow> ILogger_Log n B t (Some a) (Some pLogger) Msg w1
                     | None \<Rightarrow>
                         Some (Inr (w1\<lparr>heap := (heap w1)(a \<mapsto>
                           CFutureLogger None (m_aPending @ [Msg]))\<rparr>)))
                | COtherLogger nested \<Rightarrow> each (\<lambda>c. log_log_impl n B t c) nested w1)))"
| "log_log_impl n B t c w =
     (if in_logger w t then Some (Inr w)
      else
        let w1 = w\<lparr>in_logger := (in_logger w)(t := True)\<rparr>;
            w2 = (if scope_logger w1 t = None
                  then w1\<lparr>scope_logger := (scope_logger w1)(t := global_logger w1)\<rparr>
                  else w1)
        in if scope_logger w2 t = None
           then Some (Inr (w2\<lparr>in_logger := (in_logger w2)(t := False)\<rparr>))
           else
             (case ILogger_Log n B t None (scope_logger w2 t) (build_message B c) w2 of
                Some (Inr w3) \<Rightarrow> Some (Inr (w3\<lparr>in_logger := (in_logger w3)(t := False)\<rparr>))
              | other \<Rightarrow> other))"

declare log_log_impl.simps [simp del]

subsection \<open>Virtual dispatch of GlobalFinish\<close>

text \<open>
  The bodies of \<^verbatim>\<open>CLoggerCollection::GlobalFinish\<close> (lines 189 to 195),
  \<^verbatim>\<open>CLoggerAsync::GlobalFinish\<close> and \<^verbatim>\<open>CFutureLogger::GlobalFinish\<close> (lines 411 to 418); a
  class that does not override it inherits the empty one of \<^verbatim>\<open>ILogger\<close>.
\<close>

fun ILogger_GlobalFinish :: "nat \<Rightarrow> addr option \<Rightarrow> addr option \<Rightarrow> world
    \<Rightarrow> (error + world) option" where
  "ILogger_GlobalFinish 0 from p w = None"
| "ILogger_GlobalFinish (Suc n) from p w =
     (case p of
        None \<Rightarrow> Some (Inl NullDeref)
      | Some a \<Rightarrow>
          (case heap w a of
             None \<Rightarrow> Some (Inl NullDeref)
           | Some obj \<Rightarrow>
               (let w1 = w\<lparr>calls := calls w @ [Call from a M_GlobalFinish]\<rparr> in
                case obj of
                  CLoggerCollection m_apLoggers \<Rightarrow>
                    each (\<lambda>pLogger. ILogger_GlobalFinish n (Some a) pLogger) m_apLoggers w1
                | CLoggerAsync m_pAio m_AnsiTruecolor m_Close \<Rightarrow>
                    Some (Inr (w1\<lparr>heap := (heap w1)(a \<mapsto>
                      CLoggerAsync (CLoggerAsync_GlobalFinish m_Close m_pAio)
                        m_AnsiTruecolor m_Close)\<rparr>))
                | CFutureLogger m_pLogger m_aPending \<Rightarrow>
                    (case m_pLogger of
                       Some pLogger \<Rightarrow> ILogger_GlobalFinish n (Some a) (Some pLogger) w1
                     | None \<Rightarrow> Some (Inr w1))
                | COtherLogger nested \<Rightarrow> Some (Inr w1))))"

subsection \<open>The global registry\<close>

text \<open>\<^verbatim>\<open>log_set_global_logger\<close> (lines 22 to 30).\<close>

definition log_set_global_logger :: "addr option \<Rightarrow> world \<Rightarrow> error + world" where
  "log_set_global_logger logger w =
     (let (exchanged, g) = compare_exchange_strong (global_logger w) None logger;
          w1 = w\<lparr>global_logger := g\<rparr>
      in case (if \<not> exchanged
               then dbg_assert False
                      ''global logger has already been set and can only be set once'' w1
               else Inr w1) of
           Inl e \<Rightarrow> Inl e
         | Inr w2 \<Rightarrow>
             Inr (w2\<lparr>atexit_registered :=
                       atexit_registered w2 @ [Fn_log_global_logger_finish]\<rparr>))"

text \<open>\<^verbatim>\<open>log_global_logger_finish\<close> (lines 32 to 35).\<close>

definition log_global_logger_finish :: "nat \<Rightarrow> world \<Rightarrow> (error + world) option" where
  "log_global_logger_finish n w = ILogger_GlobalFinish n None (global_logger w) w"

text \<open>
  Normal process exit: the C runtime calls the functions registered with \<^verbatim>\<open>atexit\<close>, the
  last registered first.
\<close>

definition process_exit :: "nat \<Rightarrow> world \<Rightarrow> (error + world) option" where
  "process_exit n w =
     each (\<lambda>f. case f of Fn_log_global_logger_finish \<Rightarrow> log_global_logger_finish n)
       (rev (atexit_registered w)) w"

text \<open>\<^verbatim>\<open>log_get_scope_logger\<close> (lines 48 to 55): the pointer it returns, and the world.\<close>

definition log_get_scope_logger :: "thread \<Rightarrow> world \<Rightarrow> addr option \<times> world" where
  "log_get_scope_logger t w =
     (let w1 = (if scope_logger w t = None
                then w\<lparr>scope_logger := (scope_logger w)(t := global_logger w)\<rparr>
                else w)
      in (scope_logger w1 t, w1))"

text \<open>\<^verbatim>\<open>log_set_scope_logger\<close> (lines 57 to 64).\<close>

definition log_set_scope_logger :: "thread \<Rightarrow> addr option \<Rightarrow> world \<Rightarrow> world" where
  "log_set_scope_logger t logger w =
     (let w1 = w\<lparr>scope_logger := (scope_logger w)(t := logger)\<rparr>
      in if scope_logger w1 t = None
         then w1\<lparr>scope_logger := (scope_logger w1)(t := global_logger w1)\<rparr>
         else w1)"

subsection \<open>The deferred sink\<close>

text \<open>
  \<^verbatim>\<open>CFutureLogger::Set\<close> (lines 380 to 396) on the object at \<open>this\<close>. The method runs as one
  step: the calls of the model are made one after the other. \<^verbatim>\<open>m_PendingLock\<close> orders \<^verbatim>\<open>Set\<close>
  against the \<^verbatim>\<open>push_back\<close> of \<^verbatim>\<open>Log\<close> only; \<^verbatim>\<open>Log\<close> reads \<^verbatim>\<open>m_pLogger\<close> before it takes the
  lock, so a \<^verbatim>\<open>Log\<close> on another thread that overlaps \<^verbatim>\<open>Set\<close> is not an execution of this
  model. The pending records are replayed from the vector as it is when the loop starts;
  clearing the vector leaves it empty (its capacity is not part of the model).
\<close>

definition CFutureLogger_Set :: "nat \<Rightarrow> build \<Rightarrow> thread \<Rightarrow> addr \<Rightarrow> addr option \<Rightarrow> world
    \<Rightarrow> (error + world) option" where
  "CFutureLogger_Set n B t this pLogger w =
     (case heap w this of
        Some (CFutureLogger m_pLogger m_aPending) \<Rightarrow>
          (let pLoggerRaw = pLogger;
               (exchanged, l) = compare_exchange_strong m_pLogger None pLoggerRaw;
               w1 = w\<lparr>heap := (heap w)(this \<mapsto> CFutureLogger l m_aPending)\<rparr>
           in case (if \<not> exchanged
                    then dbg_assert False
                           ''future logger has already been set and can only be set once'' w1
                    else Inr w1) of
                Inl e \<Rightarrow> Some (Inl e)
              | Inr w2 \<Rightarrow>
                  (case each (\<lambda>Pending. ILogger_Log n B t (Some this) pLoggerRaw Pending)
                          m_aPending w2 of
                     Some (Inr w3) \<Rightarrow>
                       (case heap w3 this of
                          Some (CFutureLogger l3 aPending3) \<Rightarrow>
                            Some (Inr (w3\<lparr>heap := (heap w3)(this \<mapsto> CFutureLogger l3 [])\<rparr>))
                        | _ \<Rightarrow> Some (Inl NullDeref))
                   | other \<Rightarrow> other))
      | _ \<Rightarrow> Some (Inl NullDeref))"

subsection \<open>Programs over the interface of log.cpp\<close>

text \<open>
  The process before any logger exists, and the calls a program can make on the
  functions above; \<open>run\<close> makes them one after the other and stops at the first that
  does not return.
\<close>

definition initial_world :: world where
  "initial_world =
     \<lparr> heap = (\<lambda>a. None), calls = [], global_logger = None, atexit_registered = [],
       scope_logger = (\<lambda>t. None), in_logger = (\<lambda>t. False) \<rparr>"

datatype api =
    Api_log_set_global_logger "addr option"
  | Api_log_global_logger_finish
  | Api_log_get_scope_logger thread
  | Api_log_set_scope_logger thread "addr option"
  | Api_log_log_impl thread log_call
  | Api_CFutureLogger_Set thread addr "addr option"

fun api_step :: "nat \<Rightarrow> build \<Rightarrow> api \<Rightarrow> world \<Rightarrow> (error + world) option" where
  "api_step n B (Api_log_set_global_logger logger) w = Some (log_set_global_logger logger w)"
| "api_step n B Api_log_global_logger_finish w = log_global_logger_finish n w"
| "api_step n B (Api_log_get_scope_logger t) w = Some (Inr (snd (log_get_scope_logger t w)))"
| "api_step n B (Api_log_set_scope_logger t logger) w =
     Some (Inr (log_set_scope_logger t logger w))"
| "api_step n B (Api_log_log_impl t c) w = log_log_impl n B t c w"
| "api_step n B (Api_CFutureLogger_Set t this pLogger) w = CFutureLogger_Set n B t this pLogger w"

definition run :: "nat \<Rightarrow> build \<Rightarrow> api list \<Rightarrow> world \<Rightarrow> (error + world) option" where
  "run n B prog w = each (api_step n B) prog w"

subsection \<open>Stores in which every call returns\<close>

text \<open>
  The pointers an object holds, and the object without the parts that \<^verbatim>\<open>Log\<close> and
  \<^verbatim>\<open>GlobalFinish\<close> change (the stream of a \<^verbatim>\<open>CLoggerAsync\<close>, the pending records of a
  \<^verbatim>\<open>CFutureLogger\<close>).
\<close>

fun pointers :: "logger \<Rightarrow> addr option list" where
  "pointers (CLoggerCollection m_apLoggers) = m_apLoggers"
| "pointers (CFutureLogger m_pLogger m_aPending) =
     (case m_pLogger of None \<Rightarrow> [] | Some l \<Rightarrow> [Some l])"
| "pointers _ = []"

fun shape :: "logger \<Rightarrow> logger" where
  "shape (CLoggerCollection m_apLoggers) = CLoggerCollection m_apLoggers"
| "shape (CLoggerAsync m_pAio m_AnsiTruecolor m_Close) = CLoggerAsync [] m_AnsiTruecolor m_Close"
| "shape (CFutureLogger m_pLogger m_aPending) = CFutureLogger m_pLogger []"
| "shape (COtherLogger nested) = COtherLogger nested"

text \<open>
  A store is well formed when every pointer held by a logger is that of a logger in the
  store (not null, not dangling) and the loggers do not reach themselves: \<open>rank\<close>
  decreases along every pointer.
\<close>

definition well_formed :: "(addr \<Rightarrow> nat) \<Rightarrow> (addr \<Rightarrow> logger option) \<Rightarrow> bool" where
  "well_formed rank h \<longleftrightarrow>
     (\<forall>a obj p. h a = Some obj \<longrightarrow> p \<in> set (pointers obj) \<longrightarrow>
        (\<exists>c. p = Some c \<and> h c \<noteq> None \<and> rank c < rank a))"

text \<open>
  No sink of the store logs by itself; and the calls on thread \<open>t\<close> are guarded when
  that holds or the thread is inside \<^verbatim>\<open>log_log_impl\<close>.
\<close>

definition quiet :: "(addr \<Rightarrow> logger option) \<Rightarrow> bool" where
  "quiet h \<longleftrightarrow> (\<forall>a nested. h a = Some (COtherLogger nested) \<longrightarrow> nested = [])"

definition guarded :: "world \<Rightarrow> thread \<Rightarrow> bool" where
  "guarded w t \<longleftrightarrow> in_logger w t \<or> quiet (heap w)"

text \<open>
  What a call may do: it keeps the shape of every object and the registry, changes
  objects of \<open>S\<close> only, and makes further calls that all satisfy \<open>E\<close>.
\<close>

definition effect :: "addr set \<Rightarrow> (event \<Rightarrow> bool) \<Rightarrow> world \<Rightarrow> world \<Rightarrow> bool" where
  "effect S E w w' \<longleftrightarrow>
     (\<forall>b. map_option shape (heap w' b) = map_option shape (heap w b)) \<and>
     (\<forall>b. b \<notin> S \<longrightarrow> heap w' b = heap w b) \<and>
     global_logger w' = global_logger w \<and>
     atexit_registered w' = atexit_registered w \<and>
     scope_logger w' = scope_logger w \<and>
     in_logger w' = in_logger w \<and>
     (\<exists>evs. calls w' = calls w @ evs \<and> (\<forall>e \<in> set evs. E e))"

definition nested_call :: "(addr \<Rightarrow> nat) \<Rightarrow> nat \<Rightarrow> virtual \<Rightarrow> event \<Rightarrow> bool" where
  "nested_call rank k m e \<longleftrightarrow>
     rank (callee e) < k \<and> (\<exists>x. caller e = Some x \<and> rank x \<le> k) \<and> meth e = m"

text \<open>
  What a call that returns keeps in any store: the global logger, the registered exit
  functions and the reentrancy flags; a thread's scope logger changes only from null to
  the global logger.
\<close>

definition keeps_registry :: "world \<Rightarrow> world \<Rightarrow> bool" where
  "keeps_registry w w' \<longleftrightarrow>
     global_logger w' = global_logger w \<and>
     atexit_registered w' = atexit_registered w \<and>
     in_logger w' = in_logger w \<and>
     (\<forall>u. scope_logger w' u = scope_logger w u \<or>
          (scope_logger w u = None \<and> scope_logger w' u = global_logger w))"

subsection \<open>What a sink observes\<close>

text \<open>The records a logger received through \<^verbatim>\<open>Log\<close>, and the calls an object made.\<close>

fun log_of :: "addr \<Rightarrow> event \<Rightarrow> CLogMessage list" where
  "log_of a (Call from c (M_Log Msg)) = (if c = a then [Msg] else [])"
| "log_of a (Call from c M_GlobalFinish) = []"

definition received :: "addr \<Rightarrow> event list \<Rightarrow> CLogMessage list" where
  "received a evs = concat (map (log_of a) evs)"


text \<open>The 24-bit foreground colour sequence of a colour, \<^verbatim>\<open>ESC[38;2;r;g;bm\<close>.\<close>

definition truecolor_sequence :: "LOG_COLOR \<Rightarrow> string" where
  "truecolor_sequence col =
     CHR 0x1B # ''[38;2;'' @ dec (unat (color_r col)) @ '';'' @ dec (unat (color_g col))
       @ '';'' @ dec (unat (color_b col)) @ ''m''"

subsection \<open>The effective sink\<close>

text \<open>
  The sink a call of the entry point on thread \<open>t\<close> resolves: the thread's scope logger
  when it is set, otherwise the global logger.
\<close>

definition effective_logger :: "world \<Rightarrow> thread \<Rightarrow> addr option" where
  "effective_logger w t =
     (case scope_logger w t of None \<Rightarrow> global_logger w | Some s \<Rightarrow> Some s)"


subsection \<open>An example build and call\<close>

text \<open>
  A build without \<^verbatim>\<open>CONF_FAMILY_WINDOWS\<close> and a call of the entry point, for concrete
  instances of the properties below.
\<close>

definition example_build :: build where
  "example_build =
     \<lparr> CONF_FAMILY_WINDOWS = False, sizeof_aTimestamp = 80, sizeof_aSystem = 32,
       sizeof_aLine = 4096, after_aLine = [] \<rparr>"

definition example_call :: log_call where
  "example_call =
     \<lparr> arg_level = LEVEL_INFO, arg_have_color = False, arg_color = LOG_COLOR 0 0 0,
       arg_sys = ''test'', arg_text = ''hello'', arg_now = ''2022-04-01 12:00:00'' \<rparr>"

text \<open>
  A store with a platform sink, a stream sink, a collection of the two, a deferred sink
  that is not attached yet, and a root collection; address order is a rank for it.
\<close>

definition example_world :: world where
  "example_world =
     initial_world\<lparr>heap :=
       [1 \<mapsto> COtherLogger [],
        2 \<mapsto> CLoggerAsync [] False False,
        3 \<mapsto> CLoggerCollection [Some 1, Some 2],
        4 \<mapsto> CFutureLogger None [],
        5 \<mapsto> CLoggerCollection [Some 3, Some 4]]\<rparr>"

text \<open>
  A store whose platform sink logs from inside its own \<^verbatim>\<open>Log\<close>, under a collection that
  is the global logger.
\<close>

definition reentrant_world :: world where
  "reentrant_world =
     initial_world\<lparr>heap :=
       [1 \<mapsto> COtherLogger [example_call\<lparr>arg_text := ''nested''\<rparr>],
        2 \<mapsto> CLoggerCollection [Some 1]],
      global_logger := Some 2\<rparr>"

text \<open>
  The same build with \<^verbatim>\<open>CONF_FAMILY_WINDOWS\<close>, where the bytes \<^verbatim>\<open>stack\<close> and a NUL follow
  \<^verbatim>\<open>Msg.m_aLine\<close> in memory, and a call whose message is 5000 bytes long.
\<close>

definition windows_build :: build where
  "windows_build = example_build\<lparr>CONF_FAMILY_WINDOWS := True, after_aLine := ''stack''\<rparr>"

definition long_call :: log_call where
  "long_call = example_call\<lparr>arg_text := replicate 5000 (CHR ''a'')\<rparr>"

section \<open>Properties\<close>

subsection \<open>Calls on a well-formed store\<close>

lemma effect_refl: "effect S E w w"
  by (simp add: effect_def)

lemma effect_trans:
  assumes "effect S E w w1" and "effect S E w1 w2"
  shows "effect S E w w2"
proof -
  from assms obtain e1 e2 where
    "calls w1 = calls w @ e1" "\<forall>e \<in> set e1. E e" "calls w2 = calls w1 @ e2" "\<forall>e \<in> set e2. E e"
    unfolding effect_def by blast
  then have "calls w2 = calls w @ (e1 @ e2) \<and> (\<forall>e \<in> set (e1 @ e2). E e)" by auto
  then have "\<exists>evs. calls w2 = calls w @ evs \<and> (\<forall>e \<in> set evs. E e)" by blast
  with assms show ?thesis unfolding effect_def by simp
qed

lemma effect_mono:
  assumes "effect S E w w'" and "S \<subseteq> S'" and "\<And>e. E e \<Longrightarrow> E' e"
  shows "effect S' E' w w'"
  using assms unfolding effect_def by (metis subsetD)

lemma effect_call:
  assumes "effect S E (w\<lparr>calls := calls w @ [ev]\<rparr>) w'" and "E ev"
  shows "effect S E w w'"
proof -
  from assms(1) obtain evs where "calls w' = (calls w @ [ev]) @ evs" "\<forall>e \<in> set evs. E e"
    unfolding effect_def by auto
  with assms(2) have "calls w' = calls w @ (ev # evs) \<and> (\<forall>e \<in> set (ev # evs). E e)" by simp
  then have "\<exists>evs. calls w' = calls w @ evs \<and> (\<forall>e \<in> set evs. E e)" by blast
  with assms(1) show ?thesis unfolding effect_def by simp
qed

lemma pointers_shape: "pointers (shape obj) = pointers obj"
  by (cases obj) auto

lemma well_formed_shape:
  assumes sh: "\<And>b. map_option shape (h' b) = map_option shape (h b)"
    and wf: "well_formed rank h"
  shows "well_formed rank h'"
  unfolding well_formed_def
proof (intro allI impI)
  fix a obj q assume h: "h' a = Some obj" and q: "q \<in> set (pointers obj)"
  from sh [of a] h obtain obj0 where o: "h a = Some obj0" "shape obj0 = shape obj"
    by (cases "h a") auto
  then have "pointers obj0 = pointers obj" by (metis pointers_shape)
  with q have "q \<in> set (pointers obj0)" by simp
  with wf o(1) have "\<exists>c. q = Some c \<and> h c \<noteq> None \<and> rank c < rank a"
    unfolding well_formed_def by blast
  then obtain c where c: "q = Some c" "h c \<noteq> None" "rank c < rank a" by blast
  from sh [of c] c have "h' c \<noteq> None" by (cases "h' c") auto
  with c show "\<exists>c. q = Some c \<and> h' c \<noteq> None \<and> rank c < rank a" by blast
qed

lemma quiet_shape:
  assumes sh: "\<And>b. map_option shape (h' b) = map_option shape (h b)"
    and q: "quiet h"
  shows "quiet h'"
  unfolding quiet_def
proof (intro allI impI)
  fix a nested assume h: "h' a = Some (COtherLogger nested)"
  from sh [of a] h obtain obj0 where o: "h a = Some obj0" "shape obj0 = COtherLogger nested"
    by (cases "h a") auto
  then have "obj0 = COtherLogger nested" by (cases obj0) auto
  with q o show "nested = []" unfolding quiet_def by blast
qed

lemma effect_well_formed:
  assumes "effect S E w w'" and "well_formed rank (heap w)"
  shows "well_formed rank (heap w')"
  using assms by (auto simp: effect_def intro: well_formed_shape)

lemma effect_guarded:
  assumes "effect S E w w'" and "guarded w t"
  shows "guarded w' t"
proof -
  have "quiet (heap w) \<Longrightarrow> quiet (heap w')"
    using assms(1) by (auto simp: effect_def intro: quiet_shape)
  moreover have "in_logger w' = in_logger w" using assms(1) by (simp add: effect_def)
  ultimately show ?thesis using assms(2) unfolding guarded_def by auto
qed

lemma effect_live:
  assumes "effect S E w w'" and "heap w a \<noteq> None"
  shows "heap w' a \<noteq> None"
  using assms unfolding effect_def by (metis option.map_disc_iff)

lemma each_effect:
  assumes step: "\<And>x w. x \<in> set xs \<Longrightarrow> I w \<Longrightarrow>
      \<exists>w'. f x w = Some (Inr w') \<and> I w' \<and> effect S E w w'"
    and "I w"
  shows "\<exists>w'. each f xs w = Some (Inr w') \<and> I w' \<and> effect S E w w'"
  using assms
proof (induction xs arbitrary: w)
  case Nil
  then show ?case by (simp add: effect_refl)
next
  case (Cons x xs)
  from Cons.prems obtain w1 where w1: "f x w = Some (Inr w1)" "I w1" "effect S E w w1"
    by (meson list.set_intros(1))
  have "\<exists>w'. each f xs w1 = Some (Inr w') \<and> I w' \<and> effect S E w1 w'"
    by (rule Cons.IH) (use Cons.prems w1 in auto)
  then obtain w2 where "each f xs w1 = Some (Inr w2)" "I w2" "effect S E w1 w2" by blast
  with w1 show ?case by (auto intro: effect_trans)
qed

lemma each_dropped:
  assumes "in_logger w t"
  shows "each (\<lambda>c. log_log_impl n B t c) nested w = Some (Inr w)"
  using assms by (induction nested) (simp_all add: log_log_impl.simps)

lemma nested_call_mono:
  assumes "nested_call rank k m e" and "k \<le> k'"
  shows "nested_call rank k' m e"
  using assms unfolding nested_call_def by auto

text \<open>
  On a well-formed store a guarded \<^verbatim>\<open>Log\<close> returns once the bound exceeds the rank of
  the logger; below the logger it reaches only loggers of smaller rank, all with the
  same record.
\<close>

lemma Log_returns:
  assumes "well_formed rank (heap w)" and "guarded w t" and "heap w a \<noteq> None" and "rank a < n"
  shows "\<exists>w'. ILogger_Log n B t from (Some a) Msg w = Some (Inr w') \<and>
           effect (insert a {b. rank b < rank a}) (nested_call rank (rank a) (M_Log Msg))
             (w\<lparr>calls := calls w @ [Call from a (M_Log Msg)]\<rparr>) w'"
  using assms
proof (induction n arbitrary: a w "from")
  case 0
  then show ?case by simp
next
  case (Suc n)
  from Suc.prems obtain obj where obj: "heap w a = Some obj" by auto
  let ?w1 = "w\<lparr>calls := calls w @ [Call from a (M_Log Msg)]\<rparr>"
  let ?S = "insert a {b. rank b < rank a}"
  let ?E = "nested_call rank (rank a) (M_Log Msg)"
  have wf1: "well_formed rank (heap ?w1)" and g1: "guarded ?w1 t"
    using Suc.prems by (simp_all add: guarded_def)
  show ?case
  proof (cases obj)
    case (CLoggerCollection ps)
    define I where "I = (\<lambda>v. well_formed rank (heap v) \<and> guarded v t \<and>
      (\<forall>b. heap w b \<noteq> None \<longrightarrow> heap v b \<noteq> None))"
    have step: "\<exists>v'. ILogger_Log n B t (Some a) p Msg v = Some (Inr v') \<and> I v' \<and> effect ?S ?E v v'"
      if p: "p \<in> set ps" and I: "I v" for p v
    proof -
      from Suc.prems(1) obj CLoggerCollection p obtain c where
        c: "p = Some c" "heap w c \<noteq> None" "rank c < rank a"
        unfolding well_formed_def by fastforce
      from I c have live: "heap v c \<noteq> None" by (simp add: I_def)
      from c Suc.prems(4) have fuel: "rank c < n" by simp
      from Suc.IH [OF _ _ live fuel, of "Some a"] I obtain v' where
        v': "ILogger_Log n B t (Some a) (Some c) Msg v = Some (Inr v')"
            "effect (insert c {b. rank b < rank c}) (nested_call rank (rank c) (M_Log Msg))
               (v\<lparr>calls := calls v @ [Call (Some a) c (M_Log Msg)]\<rparr>) v'"
        unfolding I_def by blast
      have "effect ?S ?E (v\<lparr>calls := calls v @ [Call (Some a) c (M_Log Msg)]\<rparr>) v'"
        by (rule effect_mono [OF v'(2)]) (use c in \<open>auto intro: nested_call_mono\<close>)
      then have e: "effect ?S ?E v v'"
        by (rule effect_call) (use c in \<open>simp add: nested_call_def\<close>)
      from e I have "I v'"
        unfolding I_def by (meson effect_well_formed effect_guarded effect_live)
      with v' e c show ?thesis by simp
    qed
    have "I ?w1" using wf1 g1 by (simp add: I_def)
    from each_effect [where I = I and f = "\<lambda>p. ILogger_Log n B t (Some a) p Msg", OF step this]
    obtain w' where "each (\<lambda>p. ILogger_Log n B t (Some a) p Msg) ps ?w1 = Some (Inr w')"
      "effect ?S ?E ?w1 w'" by blast
    with obj CLoggerCollection show ?thesis by simp
  next
    case (CLoggerAsync aio tc cl)
    with obj show ?thesis by (simp add: effect_def)
  next
    case (CFutureLogger l pending)
    show ?thesis
    proof (cases l)
      case None
      with obj CFutureLogger show ?thesis by (simp add: effect_def)
    next
      case (Some c)
      from Suc.prems(1) obj CFutureLogger Some have
        c: "heap w c \<noteq> None" "rank c < rank a"
        unfolding well_formed_def by fastforce+
      then have live: "heap ?w1 c \<noteq> None" by simp
      from c Suc.prems(4) have fuel: "rank c < n" by simp
      from Suc.IH [OF wf1 g1 live fuel, of "Some a"] obtain v' where
        v': "ILogger_Log n B t (Some a) (Some c) Msg ?w1 = Some (Inr v')"
            "effect (insert c {b. rank b < rank c}) (nested_call rank (rank c) (M_Log Msg))
               (?w1\<lparr>calls := calls ?w1 @ [Call (Some a) c (M_Log Msg)]\<rparr>) v'"
        by blast
      have "effect ?S ?E (?w1\<lparr>calls := calls ?w1 @ [Call (Some a) c (M_Log Msg)]\<rparr>) v'"
        by (rule effect_mono [OF v'(2)]) (use c in \<open>auto intro: nested_call_mono\<close>)
      then have e: "effect ?S ?E ?w1 v'"
        by (rule effect_call) (use c in \<open>simp add: nested_call_def\<close>)
      with obj CFutureLogger Some v' show ?thesis by simp
    qed
  next
    case (COtherLogger nested)
    have "each (\<lambda>c. log_log_impl n B t c) nested ?w1 = Some (Inr ?w1)"
    proof (cases "in_logger w t")
      case True
      then show ?thesis by (simp add: each_dropped)
    next
      case False
      with Suc.prems(2) obj COtherLogger have "nested = []"
        unfolding guarded_def quiet_def by blast
      then show ?thesis by simp
    qed
    with obj COtherLogger show ?thesis by (simp add: effect_refl)
  qed
qed

subsection \<open>The asynchronous stream sink\<close>

lemma c_str_id: "CHR 0x00 \<notin> set s \<Longrightarrow> c_str s = s"
  unfolding c_str_def by (induction s) auto

lemma digit_nonzero: "k < 10 \<Longrightarrow> ''0123456789'' ! k \<noteq> CHR 0x00"
proof -
  assume "k < 10"
  then have "''0123456789'' ! k \<in> set ''0123456789''"
    by (intro nth_mem) simp
  then show ?thesis by auto
qed

lemma dec_no_NUL: "CHR 0x00 \<notin> set (dec n)"
proof (induction n rule: dec.induct)
  case (1 n)
  show ?case
  proof (cases "n < 10")
    case True
    then show ?thesis using digit_nonzero [of n] by (subst dec.simps) auto
  next
    case False
    have "n mod 10 < 10" by simp
    then have "''0123456789'' ! (n mod 10) \<noteq> CHR 0x00" by (rule digit_nonzero)
    with False 1 show ?thesis by (subst dec.simps) auto
  qed
qed

lemma dec_length: "n < 1000 \<Longrightarrow> length (dec n) \<le> 3"
proof -
  assume n: "n < 1000"
  have a: "length (dec k) = 1" if "k < 10" for k using that by (subst dec.simps) simp
  have b: "length (dec k) \<le> 2" if "k < 100" for k
  proof (cases "k < 10")
    case True then show ?thesis using a by simp
  next
    case False
    with that have "k div 10 < 10" by simp
    with False a [of "k div 10"] show ?thesis by (subst dec.simps) simp
  qed
  show ?thesis
  proof (cases "n < 10")
    case True then show ?thesis using a by simp
  next
    case False
    with n have "n div 10 < 100" by simp
    with False b [of "n div 10"] show ?thesis by (subst dec.simps) simp
  qed
qed

lemma dec_byte_length: "length (dec (unat (x :: 8 word))) \<le> 3"
proof -
  have "unat x < 2 ^ 8" using unsigned_less [of x] by simp
  then show ?thesis by (intro dec_length) simp
qed

lemma truecolor_sequence_length: "length (truecolor_sequence col) \<le> 19"
  using dec_byte_length [of "color_r col"] dec_byte_length [of "color_g col"]
    dec_byte_length [of "color_b col"]
  by (simp add: truecolor_sequence_def)

lemma truecolor_sequence_no_NUL: "CHR 0x00 \<notin> set (truecolor_sequence col)"
  by (simp add: truecolor_sequence_def dec_no_NUL)

lemma aAnsi_eq:
  "aAnsi Msg = (if m_HaveColor Msg then truecolor_sequence (m_Color Msg) else CHR 0x1B # ''[39m'')"
proof (cases "m_HaveColor Msg")
  case True
  have "str_format 32 (truecolor_sequence (m_Color Msg)) = truecolor_sequence (m_Color Msg)"
    using truecolor_sequence_length [of "m_Color Msg"]
    by (simp add: str_format_def c_str_id truecolor_sequence_no_NUL)
  with True show ?thesis by (simp add: aAnsi_def truecolor_sequence_def)
next
  case False
  then show ?thesis by (simp add: aAnsi_def str_copy_def c_str_def)
qed

lemma str_length_aAnsi: "str_length (aAnsi Msg) = length (aAnsi Msg)"
proof -
  have "CHR 0x00 \<notin> set (aAnsi Msg)"
    using truecolor_sequence_no_NUL [of "m_Color Msg"] by (simp add: aAnsi_eq)
  then show ?thesis by (simp add: str_length_def c_str_id)
qed

lemma aio_queued_append: "aio_queued nl (xs @ ys) = aio_queued nl xs @ aio_queued nl ys"
  by (induction nl xs rule: aio_queued.induct) simp_all

lemma CLoggerAsync_Log_ops:
  "CLoggerAsync_Log tc Msg aio =
     aio @ [AioLock]
       @ (if tc then [AioWrite (if m_HaveColor Msg then truecolor_sequence (m_Color Msg)
                                else CHR 0x1B # ''[39m'')] else [])
       @ [AioWrite (take (m_LineLength Msg) (m_aLine Msg)), AioNewline, AioUnlock]"
  by (simp add: CLoggerAsync_Log_def aio_lock_def aio_write_unlocked_def
      aio_write_newline_unlocked_def aio_unlock_def str_length_aAnsi) (simp add: aAnsi_eq)

lemma example_message:
  "build_message example_build example_call =
     \<lparr> m_Level = LEVEL_INFO, m_HaveColor = False, m_Color = LOG_COLOR 0 0 0,
       m_aTimestamp = ''2022-04-01 12:00:00'', m_TimestampLength = 19,
       m_aSystem = ''test'', m_SystemLength = 4,
       m_aLine = ''[2022-04-01 12:00:00][test]: hello'',
       m_LineMessageOffset = 29, m_LineLength = 34 \<rparr>"
  by (simp add: build_message_def example_build_def example_call_def line_memory_def
      line_prefix_def str_format_def str_copy_def str_timestamp_format_def str_length_def
      c_str_def vsnprintf_def)

lemma dec_255: "dec 255 = ''255''" "dec 128 = ''128''" "dec 0 = ''0''"
  by (simp_all add: dec.simps)

text \<open>
  Claim C6, as amended. One \<^verbatim>\<open>Log\<close> call on a \<^verbatim>\<open>CLoggerAsync\<close> returns and makes, under
  one acquisition of the stream's lock, these calls in this order: when ANSI truecolor is
  enabled one write of an escape sequence, which is the 24-bit sequence \<^verbatim>\<open>ESC[38;2;r;g;bm\<close> of
  the record's colour when the record has a colour and the default-foreground sequence
  \<^verbatim>\<open>ESC[39m\<close> when it has none; then one write of \<open>m_LineLength\<close> bytes of \<open>m_aLine\<close>; then
  the newline. When truecolor is disabled no escape sequence is written. The bytes queued
  grow by exactly these.
\<close>

theorem CLoggerAsync_Log_layout:
  assumes "heap w a = Some (CLoggerAsync aio tc cl)"
  shows "ILogger_Log (Suc n) B t from (Some a) Msg w =
           Some (Inr (w\<lparr>calls := calls w @ [Call from a (M_Log Msg)],
                        heap := (heap w)(a \<mapsto>
                          CLoggerAsync (CLoggerAsync_Log tc Msg aio) tc cl)\<rparr>)) \<and>
         CLoggerAsync_Log tc Msg aio = aio @ [AioLock]
           @ (if tc then [AioWrite (if m_HaveColor Msg then truecolor_sequence (m_Color Msg)
                                    else CHR 0x1B # ''[39m'')] else [])
           @ [AioWrite (take (m_LineLength Msg) (m_aLine Msg)), AioNewline, AioUnlock] \<and>
         aio_queued nl (CLoggerAsync_Log tc Msg aio) = aio_queued nl aio
           @ (if tc then (if m_HaveColor Msg then truecolor_sequence (m_Color Msg)
                          else CHR 0x1B # ''[39m'') else [])
           @ take (m_LineLength Msg) (m_aLine Msg) @ nl"
proof (intro conjI)
  show "ILogger_Log (Suc n) B t from (Some a) Msg w =
           Some (Inr (w\<lparr>calls := calls w @ [Call from a (M_Log Msg)],
                        heap := (heap w)(a \<mapsto>
                          CLoggerAsync (CLoggerAsync_Log tc Msg aio) tc cl)\<rparr>))"
    using assms by simp
qed (simp_all add: CLoggerAsync_Log_ops aio_queued_append)

theorem CLoggerAsync_Log_layout_witness:
  "heap (initial_world\<lparr>heap := (heap initial_world)(5 \<mapsto> CLoggerAsync [] True False)\<rparr>) 5
     = Some (CLoggerAsync [] True False) \<and>
   ILogger_Log (Suc 0) example_build 0 None (Some 5)
       (build_message example_build (example_call\<lparr>arg_have_color := True,
          arg_color := LOG_COLOR 255 128 0\<rparr>))
       (initial_world\<lparr>heap := (heap initial_world)(5 \<mapsto> CLoggerAsync [] True False)\<rparr>)
     \<noteq> None \<and>
   aio_queued [CHR 0x0A]
     (CLoggerAsync_Log True (build_message example_build (example_call\<lparr>arg_have_color := True,
          arg_color := LOG_COLOR 255 128 0\<rparr>)) []) =
       CHR 0x1B # ''[38;2;255;128;0m[2022-04-01 12:00:00][test]: hello'' @ [CHR 0x0A]"
proof -
  let ?w = "initial_world\<lparr>heap := (heap initial_world)(5 \<mapsto> CLoggerAsync [] True False)\<rparr>"
  let ?M = "build_message example_build (example_call\<lparr>arg_have_color := True,
          arg_color := LOG_COLOR 255 128 0\<rparr>)"
  have h: "heap ?w 5 = Some (CLoggerAsync [] True False)" by simp
  have M: "m_HaveColor ?M" "m_Color ?M = LOG_COLOR 255 128 0" "m_LineLength ?M = 34"
    "m_aLine ?M = ''[2022-04-01 12:00:00][test]: hello''"
    by (simp_all add: build_message_def example_build_def example_call_def line_memory_def
      line_prefix_def str_format_def str_copy_def str_timestamp_format_def str_length_def
      c_str_def vsnprintf_def)
  from CLoggerAsync_Log_layout [OF h, of 0 example_build 0 None ?M "[CHR 0x0A]"]
  have "ILogger_Log (Suc 0) example_build 0 None (Some 5) ?M ?w \<noteq> None"
    and "aio_queued [CHR 0x0A] (CLoggerAsync_Log True ?M []) =
       CHR 0x1B # ''[38;2;255;128;0m[2022-04-01 12:00:00][test]: hello'' @ [CHR 0x0A]"
    by (simp_all add: M truecolor_sequence_def dec_255 del: ILogger_Log.simps)
  with h show ?thesis by blast
qed

text \<open>
  Claim C6 as stated fails: with truecolor enabled and a record without colour a prefix
  is written, and it is \<^verbatim>\<open>ESC[39m\<close>, not the 24-bit sequence of the record's colour.
\<close>

theorem CLoggerAsync_Log_no_color_counterexample:
  "aio_queued [CHR 0x0A]
     (CLoggerAsync_Log True (build_message example_build example_call) []) =
       CHR 0x1B # ''[39m[2022-04-01 12:00:00][test]: hello'' @ [CHR 0x0A] \<and>
   aio_queued [CHR 0x0A]
     (CLoggerAsync_Log True (build_message example_build example_call) []) \<noteq>
       truecolor_sequence (m_Color (build_message example_build example_call))
         @ take (m_LineLength (build_message example_build example_call))
             (m_aLine (build_message example_build example_call)) @ [CHR 0x0A] \<and>
   aio_queued [CHR 0x0A]
     (CLoggerAsync_Log True (build_message example_build example_call) []) \<noteq>
       take (m_LineLength (build_message example_build example_call))
         (m_aLine (build_message example_build example_call)) @ [CHR 0x0A]"
  by (simp add: example_message CLoggerAsync_Log_ops truecolor_sequence_def dec_255)

subsection \<open>Calls in order\<close>

lemma GlobalFinish_returns:
  assumes "well_formed rank (heap w)" and "heap w a \<noteq> None" and "rank a < n"
  shows "\<exists>w'. ILogger_GlobalFinish n from (Some a) w = Some (Inr w') \<and>
           effect (insert a {b. rank b < rank a}) (nested_call rank (rank a) M_GlobalFinish)
             (w\<lparr>calls := calls w @ [Call from a M_GlobalFinish]\<rparr>) w'"
  using assms
proof (induction n arbitrary: a w "from")
  case 0
  then show ?case by simp
next
  case (Suc n)
  from Suc.prems obtain obj where obj: "heap w a = Some obj" by auto
  let ?w1 = "w\<lparr>calls := calls w @ [Call from a M_GlobalFinish]\<rparr>"
  let ?S = "insert a {b. rank b < rank a}"
  let ?E = "nested_call rank (rank a) M_GlobalFinish"
  have wf1: "well_formed rank (heap ?w1)"
    using Suc.prems by simp
  show ?case
  proof (cases obj)
    case (CLoggerCollection ps)
    define I where "I = (\<lambda>v::world. well_formed rank (heap v) \<and>
      (\<forall>b. heap w b \<noteq> None \<longrightarrow> heap v b \<noteq> None))"
    have step: "\<exists>v'. ILogger_GlobalFinish n (Some a) p v = Some (Inr v') \<and> I v' \<and> effect ?S ?E v v'"
      if p: "p \<in> set ps" and I: "I v" for p v
    proof -
      from Suc.prems(1) obj CLoggerCollection p obtain c where
        c: "p = Some c" "heap w c \<noteq> None" "rank c < rank a"
        unfolding well_formed_def by fastforce
      from I c have live: "heap v c \<noteq> None" by (simp add: I_def)
      from c Suc.prems(3) have fuel: "rank c < n" by simp
      from Suc.IH [OF _ live fuel, of "Some a"] I obtain v' where
        v': "ILogger_GlobalFinish n (Some a) (Some c) v = Some (Inr v')"
            "effect (insert c {b. rank b < rank c}) (nested_call rank (rank c) M_GlobalFinish)
               (v\<lparr>calls := calls v @ [Call (Some a) c M_GlobalFinish]\<rparr>) v'"
        unfolding I_def by blast
      have "effect ?S ?E (v\<lparr>calls := calls v @ [Call (Some a) c M_GlobalFinish]\<rparr>) v'"
        by (rule effect_mono [OF v'(2)]) (use c in \<open>auto intro: nested_call_mono\<close>)
      then have e: "effect ?S ?E v v'"
        by (rule effect_call) (use c in \<open>simp add: nested_call_def\<close>)
      from e I have "I v'"
        unfolding I_def by (meson effect_well_formed effect_live)
      with v' e c show ?thesis by simp
    qed
    have "I ?w1" using wf1 by (simp add: I_def)
    from each_effect [where I = I and f = "\<lambda>p. ILogger_GlobalFinish n (Some a) p", OF step this]
    obtain w' where "each (\<lambda>p. ILogger_GlobalFinish n (Some a) p) ps ?w1 = Some (Inr w')"
      "effect ?S ?E ?w1 w'" by blast
    with obj CLoggerCollection show ?thesis by simp
  next
    case (CLoggerAsync aio tc cl)
    with obj show ?thesis by (simp add: effect_def)
  next
    case (CFutureLogger l pending)
    show ?thesis
    proof (cases l)
      case None
      with obj CFutureLogger show ?thesis by (simp add: effect_refl)
    next
      case (Some c)
      from Suc.prems(1) obj CFutureLogger Some have
        c: "heap w c \<noteq> None" "rank c < rank a"
        unfolding well_formed_def by fastforce+
      then have live: "heap ?w1 c \<noteq> None" by simp
      from c Suc.prems(3) have fuel: "rank c < n" by simp
      from Suc.IH [OF wf1 live fuel, of "Some a"] obtain v' where
        v': "ILogger_GlobalFinish n (Some a) (Some c) ?w1 = Some (Inr v')"
            "effect (insert c {b. rank b < rank c}) (nested_call rank (rank c) M_GlobalFinish)
               (?w1\<lparr>calls := calls ?w1 @ [Call (Some a) c M_GlobalFinish]\<rparr>) v'"
        by blast
      have "effect ?S ?E (?w1\<lparr>calls := calls ?w1 @ [Call (Some a) c M_GlobalFinish]\<rparr>) v'"
        by (rule effect_mono [OF v'(2)]) (use c in \<open>auto intro: nested_call_mono\<close>)
      then have e: "effect ?S ?E ?w1 v'"
        by (rule effect_call) (use c in \<open>simp add: nested_call_def\<close>)
      with obj CFutureLogger Some v' show ?thesis by simp
    qed
  next
    case (COtherLogger nested)
    with obj show ?thesis by (simp add: effect_refl)
  qed
qed



lemma received_append: "received a (u @ v) = received a u @ received a v"
  by (simp add: received_def)


lemma nested_not_received:
  assumes "\<forall>e \<in> set evs. nested_call rank k m e" and "k \<le> rank R"
  shows "received R evs = []"
proof -
  have "log_of R e = []" if "e \<in> set evs" for e
  proof -
    from assms that have "rank (callee e) < rank R" unfolding nested_call_def by auto
    then have "callee e \<noteq> R" by auto
    then show ?thesis by (cases e; cases "meth e") auto
  qed
  then show ?thesis by (simp add: received_def)
qed


lemma effect_after_call:
  assumes "effect (insert c {b. rank b < rank c}) (nested_call rank (rank c) m)
             (v\<lparr>calls := calls v @ [ev]\<rparr>) v'"
  shows "\<exists>evs. calls v' = calls v @ ev # evs \<and> (\<forall>e \<in> set evs. nested_call rank (rank c) m e)"
    and "\<forall>b. map_option shape (heap v' b) = map_option shape (heap v b)"
    and "\<forall>b. b \<noteq> c \<longrightarrow> rank c \<le> rank b \<longrightarrow> heap v' b = heap v b"
    and "global_logger v' = global_logger v" and "atexit_registered v' = atexit_registered v"
    and "scope_logger v' = scope_logger v" and "in_logger v' = in_logger v"
  using assms unfolding effect_def by auto

lemma Log_unfolded:
  assumes "well_formed rank (heap v)" and "guarded v t" and "heap v c \<noteq> None" and "rank c < n"
  shows "\<exists>v' evs. ILogger_Log n B t from (Some c) Msg v = Some (Inr v') \<and>
           calls v' = calls v @ Call from c (M_Log Msg) # evs \<and>
           (\<forall>e \<in> set evs. nested_call rank (rank c) (M_Log Msg) e) \<and>
           well_formed rank (heap v') \<and> guarded v' t \<and>
           (\<forall>b. map_option shape (heap v' b) = map_option shape (heap v b)) \<and>
           (\<forall>b. b \<noteq> c \<longrightarrow> rank c \<le> rank b \<longrightarrow> heap v' b = heap v b) \<and>
           global_logger v' = global_logger v \<and> atexit_registered v' = atexit_registered v \<and>
           scope_logger v' = scope_logger v \<and> in_logger v' = in_logger v"
proof -
  let ?v1 = "v\<lparr>calls := calls v @ [Call from c (M_Log Msg)]\<rparr>"
  from Log_returns [OF assms, of B "from" Msg] obtain v' where
    r: "ILogger_Log n B t from (Some c) Msg v = Some (Inr v')"
    and e: "effect (insert c {b. rank b < rank c}) (nested_call rank (rank c) (M_Log Msg)) ?v1 v'"
    by blast
  have "well_formed rank (heap ?v1)" "guarded ?v1 t"
    using assms by (simp_all add: guarded_def)
  with e have "well_formed rank (heap v')" "guarded v' t"
    by (blast intro: effect_well_formed effect_guarded)+
  with r effect_after_call [OF e] show ?thesis by blast
qed

lemma GlobalFinish_unfolded:
  assumes "well_formed rank (heap v)" and "heap v c \<noteq> None" and "rank c < n"
  shows "\<exists>v' evs. ILogger_GlobalFinish n from (Some c) v = Some (Inr v') \<and>
           calls v' = calls v @ Call from c M_GlobalFinish # evs \<and>
           (\<forall>e \<in> set evs. nested_call rank (rank c) M_GlobalFinish e) \<and>
           well_formed rank (heap v') \<and>
           (\<forall>b. map_option shape (heap v' b) = map_option shape (heap v b)) \<and>
           (\<forall>b. b \<noteq> c \<longrightarrow> rank c \<le> rank b \<longrightarrow> heap v' b = heap v b) \<and>
           global_logger v' = global_logger v \<and> atexit_registered v' = atexit_registered v \<and>
           scope_logger v' = scope_logger v \<and> in_logger v' = in_logger v"
proof -
  let ?v1 = "v\<lparr>calls := calls v @ [Call from c M_GlobalFinish]\<rparr>"
  from GlobalFinish_returns [OF assms, of "from"] obtain v' where
    r: "ILogger_GlobalFinish n from (Some c) v = Some (Inr v')"
    and e: "effect (insert c {b. rank b < rank c}) (nested_call rank (rank c) M_GlobalFinish) ?v1 v'"
    by blast
  have "well_formed rank (heap ?v1)"
    using assms by simp
  with e have "well_formed rank (heap v')"
    by (blast intro: effect_well_formed)
  with r effect_after_call [OF e] show ?thesis by blast
qed

lemma shape_live:
  assumes "\<forall>b. map_option shape (h' b) = map_option shape (h b)" and "h a \<noteq> None"
  shows "h' a \<noteq> None"
  using assms by (metis option.map_disc_iff)

lemma example_world_well_formed: "well_formed (\<lambda>a. a) (heap example_world)"
  unfolding well_formed_def example_world_def
  by (auto split: if_splits)



subsection \<open>The collection sink\<close>



subsection \<open>The deferred sink\<close>






lemma received_Cons_Log:
  "received R (Call src c (M_Log Msg) # evs) = (if c = R then [Msg] else []) @ received R evs"
  by (simp add: received_def)






subsection \<open>The registry and the entry point\<close>

lemma keeps_registry_refl: "keeps_registry w w"
  by (simp add: keeps_registry_def)

lemma keeps_registry_trans:
  assumes "keeps_registry w w1" and "keeps_registry w1 w2"
  shows "keeps_registry w w2"
  using assms unfolding keeps_registry_def by metis

lemma keeps_registry_store:
  "keeps_registry w (w\<lparr>calls := cs\<rparr>)" "keeps_registry w (w\<lparr>heap := h\<rparr>)"
  "keeps_registry w (w\<lparr>calls := cs, heap := h\<rparr>)"
  by (simp_all add: keeps_registry_def)

lemma each_keeps_registry:
  assumes "\<And>x v v'. x \<in> set xs \<Longrightarrow> f x v = Some (Inr v') \<Longrightarrow> keeps_registry v v'"
    and "each f xs w = Some (Inr w')"
  shows "keeps_registry w w'"
  using assms
proof (induction xs arbitrary: w)
  case Nil
  then show ?case by (simp add: keeps_registry_refl)
next
  case (Cons x xs)
  from Cons.prems(2) obtain w1 where w1: "f x w = Some (Inr w1)" "each f xs w1 = Some (Inr w')"
    by (auto split: option.splits sum.splits)
  have "keeps_registry w w1" by (rule Cons.prems(1) [OF _ w1(1)]) simp
  moreover have "keeps_registry w1 w'"
    by (rule Cons.IH [OF _ w1(2)]) (use Cons.prems(1) in auto)
  ultimately show ?case by (rule keeps_registry_trans)
qed

lemma log_log_impl_nested:
  "in_logger w t \<Longrightarrow> log_log_impl n B t c w = Some (Inr w)"
  by (simp add: log_log_impl.simps)

lemma log_log_impl_no_sink:
  assumes "\<not> in_logger w t" and "effective_logger w t = None"
  shows "log_log_impl n B t c w = Some (Inr w)"
proof -
  from assms(2) have s: "scope_logger w t = None" "global_logger w = None"
    by (auto simp: effective_logger_def split: option.splits)
  have "(in_logger w)(t := False) = in_logger w" using assms(1) by (auto simp: fun_eq_iff)
  moreover have "(scope_logger w)(t := None) = scope_logger w" using s by (auto simp: fun_eq_iff)
  ultimately show ?thesis using assms(1) s by (simp add: log_log_impl.simps Let_def)
qed

lemma log_log_impl_sink:
  assumes "\<not> in_logger w t" and "effective_logger w t = Some s"
  shows "log_log_impl n B t c w =
     (case ILogger_Log n B t None (Some s) (build_message B c)
             (w\<lparr>in_logger := (in_logger w)(t := True),
                scope_logger := (scope_logger w)(t := Some s)\<rparr>) of
        Some (Inr w3) \<Rightarrow> Some (Inr (w3\<lparr>in_logger := (in_logger w3)(t := False)\<rparr>))
      | other \<Rightarrow> other)"
proof (cases "scope_logger w t")
  case None
  with assms show ?thesis
    by (simp add: log_log_impl.simps Let_def effective_logger_def)
next
  case (Some x)
  with assms(2) have x: "x = s" by (simp add: effective_logger_def)
  with Some have "(scope_logger w)(t := Some s) = scope_logger w" by (auto simp: fun_eq_iff)
  with assms Some x show ?thesis
    by (simp add: log_log_impl.simps Let_def)
qed

lemma log_log_impl_keeps_registry:
  assumes IH: "\<And>p Msg v v'. ILogger_Log n B t None p Msg v = Some (Inr v') \<Longrightarrow> keeps_registry v v'"
    and r: "log_log_impl n B t c w = Some (Inr w')"
  shows "keeps_registry w w'"
proof (cases "in_logger w t")
  case True
  with r have "w' = w" by (simp add: log_log_impl_nested)
  then show ?thesis by (simp add: keeps_registry_refl)
next
  case False
  show ?thesis
  proof (cases "effective_logger w t")
    case None
    with r False have "w' = w" by (simp add: log_log_impl_no_sink)
    then show ?thesis by (simp add: keeps_registry_refl)
  next
    case (Some s)
    let ?w2 = "w\<lparr>in_logger := (in_logger w)(t := True),
                scope_logger := (scope_logger w)(t := Some s)\<rparr>"
    from r obtain w3 where
      w3: "ILogger_Log n B t None (Some s) (build_message B c) ?w2 = Some (Inr w3)"
        "w' = w3\<lparr>in_logger := (in_logger w3)(t := False)\<rparr>"
      unfolding log_log_impl_sink [OF False Some]
      by (auto split: option.splits sum.splits)
    from IH [OF w3(1)] have k: "keeps_registry ?w2 w3" .
    have restored: "((in_logger w)(t := True))(t := False) = in_logger w"
      using False by (auto simp: fun_eq_iff)
    have sc: "scope_logger w u = None \<and> global_logger w = Some s \<or> scope_logger w u = Some s"
      if "u = t" for u
      using Some that by (auto simp: effective_logger_def split: option.splits)
    from k have g: "global_logger w3 = global_logger w"
      and a: "atexit_registered w3 = atexit_registered w"
      and i: "in_logger w3 = (in_logger w)(t := True)"
      and sl: "\<And>u. scope_logger w3 u = ((scope_logger w)(t := Some s)) u \<or>
          (((scope_logger w)(t := Some s)) u = None \<and> scope_logger w3 u = global_logger w)"
      unfolding keeps_registry_def by simp_all
    have "scope_logger w3 u = scope_logger w u \<or>
          (scope_logger w u = None \<and> scope_logger w3 u = global_logger w)" for u
      using sl [of u] sc [of u] by (cases "u = t") auto
    with g a i restored show ?thesis unfolding w3(2) keeps_registry_def by simp
  qed
qed

lemma Log_keeps_registry:
  "ILogger_Log n B t src p Msg w = Some (Inr w') \<Longrightarrow> keeps_registry w w'"
proof (induction n arbitrary: src p Msg w w')
  case 0
  then show ?case by simp
next
  case (Suc n)
  from Suc.prems obtain a obj where a: "p = Some a" "heap w a = Some obj"
    by (auto split: option.splits)
  let ?w1 = "w\<lparr>calls := calls w @ [Call src a (M_Log Msg)]\<rparr>"
  have k1: "keeps_registry w ?w1" by (rule keeps_registry_store)
  have "keeps_registry ?w1 w'"
  proof (cases obj)
    case (CLoggerCollection ps)
    with Suc.prems a have
      "each (\<lambda>pLogger. ILogger_Log n B t (Some a) pLogger Msg) ps ?w1 = Some (Inr w')"
      by simp
    then show ?thesis by (rule each_keeps_registry [rotated]) (rule Suc.IH)
  next
    case (CLoggerAsync aio tc cl)
    with Suc.prems a show ?thesis by (auto simp: keeps_registry_def)
  next
    case (CFutureLogger l pending)
    show ?thesis
    proof (cases l)
      case None
      with Suc.prems a CFutureLogger show ?thesis by (auto simp: keeps_registry_def)
    next
      case (Some c)
      with Suc.prems a CFutureLogger have
        "ILogger_Log n B t (Some a) (Some c) Msg ?w1 = Some (Inr w')" by simp
      then show ?thesis by (rule Suc.IH)
    qed
  next
    case (COtherLogger nested)
    with Suc.prems a have "each (\<lambda>c. log_log_impl n B t c) nested ?w1 = Some (Inr w')"
      by simp
    then show ?thesis
      by (rule each_keeps_registry [rotated]) (rule log_log_impl_keeps_registry, rule Suc.IH)
  qed
  with k1 show ?case by (rule keeps_registry_trans)
qed

lemma log_log_impl_keeps:
  "log_log_impl n B t c w = Some (Inr w') \<Longrightarrow> keeps_registry w w'"
  by (rule log_log_impl_keeps_registry) (rule Log_keeps_registry)

lemma GlobalFinish_keeps_registry:
  "ILogger_GlobalFinish n src p w = Some (Inr w') \<Longrightarrow> keeps_registry w w'"
proof (induction n arbitrary: src p w w')
  case 0
  then show ?case by simp
next
  case (Suc n)
  from Suc.prems obtain a obj where a: "p = Some a" "heap w a = Some obj"
    by (auto split: option.splits)
  let ?w1 = "w\<lparr>calls := calls w @ [Call src a M_GlobalFinish]\<rparr>"
  have k1: "keeps_registry w ?w1" by (rule keeps_registry_store)
  have "keeps_registry ?w1 w'"
  proof (cases obj)
    case (CLoggerCollection ps)
    with Suc.prems a have
      "each (\<lambda>pLogger. ILogger_GlobalFinish n (Some a) pLogger) ps ?w1 = Some (Inr w')"
      by simp
    then show ?thesis by (rule each_keeps_registry [rotated]) (rule Suc.IH)
  next
    case (CLoggerAsync aio tc cl)
    with Suc.prems a show ?thesis by (auto simp: keeps_registry_def)
  next
    case (CFutureLogger l pending)
    show ?thesis
    proof (cases l)
      case None
      with Suc.prems a CFutureLogger show ?thesis by (auto simp: keeps_registry_def)
    next
      case (Some c)
      with Suc.prems a CFutureLogger have
        "ILogger_GlobalFinish n (Some a) (Some c) ?w1 = Some (Inr w')" by simp
      then show ?thesis by (rule Suc.IH)
    qed
  next
    case (COtherLogger nested)
    with Suc.prems a show ?thesis by (auto simp: keeps_registry_def)
  qed
  with k1 show ?case by (rule keeps_registry_trans)
qed

lemma Set_keeps_registry:
  assumes "CFutureLogger_Set n B t this pLogger w = Some (Inr w')"
  shows "keeps_registry w w'"
proof -
  from assms obtain l ps where F: "heap w this = Some (CFutureLogger l ps)"
    by (auto simp: CFutureLogger_Set_def split: option.splits logger.splits)
  from assms F have l: "l = None"
    by (auto simp: CFutureLogger_Set_def compare_exchange_strong_def dbg_assert_def
        split: if_splits)
  let ?v = "w\<lparr>heap := (heap w)(this \<mapsto> CFutureLogger pLogger ps)\<rparr>"
  from assms F l obtain w3 l3 where
    w3: "each (\<lambda>Pending. ILogger_Log n B t (Some this) pLogger Pending) ps ?v = Some (Inr w3)"
      "w' = w3\<lparr>heap := (heap w3)(this \<mapsto> CFutureLogger l3 [])\<rparr>"
    by (auto simp: CFutureLogger_Set_def compare_exchange_strong_def dbg_assert_def
        split: option.splits sum.splits logger.splits)
  have "keeps_registry ?v w3"
    by (rule each_keeps_registry [OF _ w3(1)]) (rule Log_keeps_registry)
  moreover have "keeps_registry w ?v" by (rule keeps_registry_store)
  moreover have "keeps_registry w3 w'" unfolding w3(2) by (rule keeps_registry_store)
  ultimately show ?thesis by (blast intro: keeps_registry_trans)
qed

lemma log_log_impl_delivers:
  assumes out: "\<not> in_logger w t" and eff: "effective_logger w t = Some s"
    and wf: "well_formed rank (heap w)" and live: "heap w s \<noteq> None" and fuel: "rank s < n"
  shows "\<exists>w' evs. log_log_impl n B t c w = Some (Inr w') \<and>
           calls w' = calls w @ Call None s (M_Log (build_message B c)) # evs \<and>
           (\<forall>e \<in> set evs. nested_call rank (rank s) (M_Log (build_message B c)) e) \<and>
           well_formed rank (heap w') \<and>
           (\<forall>b. map_option shape (heap w' b) = map_option shape (heap w b)) \<and>
           global_logger w' = global_logger w \<and> atexit_registered w' = atexit_registered w \<and>
           scope_logger w' = (scope_logger w)(t := Some s) \<and> in_logger w' = in_logger w"
proof -
  let ?w2 = "w\<lparr>in_logger := (in_logger w)(t := True),
              scope_logger := (scope_logger w)(t := Some s)\<rparr>"
  have pre: "well_formed rank (heap ?w2)" "guarded ?w2 t" "heap ?w2 s \<noteq> None"
    using wf live by (simp_all add: guarded_def)
  from Log_unfolded [OF pre fuel, of B None "build_message B c"] obtain w3 evs where
    w3: "ILogger_Log n B t None (Some s) (build_message B c) ?w2 = Some (Inr w3)"
      "calls w3 = calls ?w2 @ Call None s (M_Log (build_message B c)) # evs"
      "\<forall>e \<in> set evs. nested_call rank (rank s) (M_Log (build_message B c)) e"
      "well_formed rank (heap w3)"
      "\<forall>b. map_option shape (heap w3 b) = map_option shape (heap ?w2 b)"
      "global_logger w3 = global_logger ?w2" "atexit_registered w3 = atexit_registered ?w2"
      "scope_logger w3 = scope_logger ?w2" "in_logger w3 = in_logger ?w2"
    by blast
  let ?w' = "w3\<lparr>in_logger := (in_logger w3)(t := False)\<rparr>"
  have r: "log_log_impl n B t c w = Some (Inr ?w')"
    unfolding log_log_impl_sink [OF out eff] using w3(1) by simp
  have restored: "((in_logger w)(t := True))(t := False) = in_logger w"
    using out by (auto simp: fun_eq_iff)
  have "calls ?w' = calls w @ Call None s (M_Log (build_message B c)) # evs"
    using w3(2) by simp
  moreover have "well_formed rank (heap ?w')" using w3(4) by simp
  moreover have "\<forall>b. map_option shape (heap ?w' b) = map_option shape (heap w b)"
    using w3(5) by simp
  moreover have "global_logger ?w' = global_logger w" "atexit_registered ?w' = atexit_registered w"
    "scope_logger ?w' = (scope_logger w)(t := Some s)" "in_logger ?w' = in_logger w"
    using w3(6-9) restored by simp_all
  ultimately show ?thesis using r w3(3) by blast
qed

lemma received_delivered:
  assumes "calls w' = calls w @ Call src s (M_Log Msg) # evs"
    and "\<forall>e \<in> set evs. nested_call rank (rank s) m e"
  shows "received s (calls w') = received s (calls w) @ [Msg]"
proof -
  from assms(2) have "received s evs = []" by (rule nested_not_received) simp
  with assms(1) show ?thesis by (simp add: received_append received_Cons_Log)
qed

subsection \<open>The entry point\<close>

lemma nested_call_meth: "nested_call rank k m e \<Longrightarrow> meth e = m"
  by (simp add: nested_call_def)

lemma reentrant_world_well_formed: "well_formed (\<lambda>a. a) (heap reentrant_world)"
  unfolding well_formed_def reentrant_world_def
  by (auto split: if_splits)

lemma effective_logger_scope: "scope_logger w t = Some s \<Longrightarrow> effective_logger w t = Some s"
  by (simp add: effective_logger_def)

lemma effective_logger_global:
  "scope_logger w t = None \<Longrightarrow> effective_logger w t = global_logger w"
  by (simp add: effective_logger_def)

lemma log_log_impl_received:
  assumes "\<not> in_logger w t" and "effective_logger w t = Some s"
    and "well_formed rank (heap w)" and "heap w s \<noteq> None" and "rank s < n"
  shows "\<exists>w' evs. log_log_impl n B t c w = Some (Inr w') \<and>
           calls w' = calls w @ Call None s (M_Log (build_message B c)) # evs \<and>
           received s (calls w') = received s (calls w) @ [build_message B c] \<and>
           effective_logger w' t = Some s \<and> \<not> in_logger w' t \<and>
           well_formed rank (heap w') \<and> heap w' s \<noteq> None"
proof -
  from log_log_impl_delivers [OF assms, of B c] obtain w' evs where
    w': "log_log_impl n B t c w = Some (Inr w')"
      "calls w' = calls w @ Call None s (M_Log (build_message B c)) # evs"
      "\<forall>e \<in> set evs. nested_call rank (rank s) (M_Log (build_message B c)) e"
      "well_formed rank (heap w')"
      "\<forall>b. map_option shape (heap w' b) = map_option shape (heap w b)"
      "scope_logger w' = (scope_logger w)(t := Some s)" "in_logger w' = in_logger w"
    by blast
  from w'(2,3) have "received s (calls w') = received s (calls w) @ [build_message B c]"
    by (rule received_delivered)
  moreover from w'(6) have "effective_logger w' t = Some s" by (simp add: effective_logger_def)
  moreover from w'(7) assms(1) have "\<not> in_logger w' t" by simp
  moreover from w'(5) assms(4) have "heap w' s \<noteq> None" by (rule shape_live)
  ultimately show ?thesis using w'(1,2,4) by blast
qed

text \<open>
  Claim C3. A call of \<^verbatim>\<open>log_log_impl\<close> made while \<open>in_logger\<close> is set on the thread returns
  at once and leaves the whole world as it was: no record is built and no sink is called.
  An outer call whose effective sink itself calls the entry point from its \<^verbatim>\<open>Log\<close> returns
  with the outer record delivered to that sink and nothing else changed; and in any
  well-formed store, whatever the sinks try to log from inside, the outer call returns,
  its record is delivered to the effective sink, and every call made to any sink during
  it carries the outer record.
\<close>

theorem log_log_impl_reentrant:
  "(in_logger w t \<longrightarrow> log_log_impl n B t c w = Some (Inr w)) \<and>
   (\<not> in_logger w t \<and> effective_logger w t = Some s \<and> heap w s = Some (COtherLogger nested) \<longrightarrow>
      log_log_impl (Suc n) B t c w =
        Some (Inr (w\<lparr>calls := calls w @ [Call None s (M_Log (build_message B c))],
                     scope_logger := (scope_logger w)(t := Some s)\<rparr>))) \<and>
   (\<not> in_logger w t \<and> effective_logger w t = Some s \<and> well_formed rank (heap w) \<and>
    heap w s \<noteq> None \<and> rank s < n \<longrightarrow>
      (\<exists>w' evs. log_log_impl n B t c w = Some (Inr w') \<and>
         calls w' = calls w @ Call None s (M_Log (build_message B c)) # evs \<and>
         (\<forall>e \<in> set evs. meth e = M_Log (build_message B c))))"
proof (intro conjI impI)
  assume "in_logger w t"
  then show "log_log_impl n B t c w = Some (Inr w)" by (rule log_log_impl_nested)
next
  assume a: "\<not> in_logger w t \<and> effective_logger w t = Some s \<and>
    heap w s = Some (COtherLogger nested)"
  let ?w2 = "w\<lparr>in_logger := (in_logger w)(t := True),
              scope_logger := (scope_logger w)(t := Some s)\<rparr>"
  let ?w3 = "?w2\<lparr>calls := calls ?w2 @ [Call None s (M_Log (build_message B c))]\<rparr>"
  have "in_logger ?w3 t" by simp
  then have "each (\<lambda>c. log_log_impl n B t c) nested ?w3 = Some (Inr ?w3)"
    by (rule each_dropped)
  with a have "ILogger_Log (Suc n) B t None (Some s) (build_message B c) ?w2 = Some (Inr ?w3)"
    by simp
  moreover have "((in_logger w)(t := True))(t := False) = in_logger w"
    using a by (auto simp: fun_eq_iff)
  ultimately show "log_log_impl (Suc n) B t c w =
        Some (Inr (w\<lparr>calls := calls w @ [Call None s (M_Log (build_message B c))],
                     scope_logger := (scope_logger w)(t := Some s)\<rparr>))"
    using a by (simp add: log_log_impl_sink del: ILogger_Log.simps)
next
  assume a: "\<not> in_logger w t \<and> effective_logger w t = Some s \<and> well_formed rank (heap w) \<and>
    heap w s \<noteq> None \<and> rank s < n"
  then have "\<not> in_logger w t" "effective_logger w t = Some s" "well_formed rank (heap w)"
    "heap w s \<noteq> None" "rank s < n" by simp_all
  from log_log_impl_delivers [OF this, of B c] obtain w' evs where
    "log_log_impl n B t c w = Some (Inr w')"
    "calls w' = calls w @ Call None s (M_Log (build_message B c)) # evs"
    "\<forall>e \<in> set evs. nested_call rank (rank s) (M_Log (build_message B c)) e"
    by blast
  then show "\<exists>w' evs. log_log_impl n B t c w = Some (Inr w') \<and>
         calls w' = calls w @ Call None s (M_Log (build_message B c)) # evs \<and>
         (\<forall>e \<in> set evs. meth e = M_Log (build_message B c))"
    using nested_call_meth by blast
qed

theorem log_log_impl_reentrant_witness:
  "in_logger (reentrant_world\<lparr>in_logger := (\<lambda>t. t = 0)\<rparr>) 0 \<and>
   log_log_impl 3 example_build 0 example_call (reentrant_world\<lparr>in_logger := (\<lambda>t. t = 0)\<rparr>) =
     Some (Inr (reentrant_world\<lparr>in_logger := (\<lambda>t. t = 0)\<rparr>)) \<and>
   \<not> in_logger (reentrant_world\<lparr>heap := [1 \<mapsto> COtherLogger [example_call\<lparr>arg_text := ''nested''\<rparr>]],
        global_logger := Some 1\<rparr>) 0 \<and>
   log_log_impl (Suc 0) example_build 0 example_call
     (reentrant_world\<lparr>heap := [1 \<mapsto> COtherLogger [example_call\<lparr>arg_text := ''nested''\<rparr>]],
        global_logger := Some 1\<rparr>) =
     Some (Inr (reentrant_world\<lparr>heap := [1 \<mapsto> COtherLogger [example_call\<lparr>arg_text := ''nested''\<rparr>]],
        global_logger := Some 1,
        calls := [Call None 1 (M_Log (build_message example_build example_call))],
        scope_logger := (\<lambda>t. None)(0 := Some 1)\<rparr>)) \<and>
   \<not> in_logger reentrant_world 0 \<and> effective_logger reentrant_world 0 = Some 2 \<and>
   well_formed (\<lambda>a. a) (heap reentrant_world) \<and> heap reentrant_world 2 \<noteq> None \<and>
   (\<exists>w' evs. log_log_impl 3 example_build 0 example_call reentrant_world = Some (Inr w') \<and>
      calls w' = Call None 2 (M_Log (build_message example_build example_call)) # evs \<and>
      list_all (\<lambda>e. meth e = M_Log (build_message example_build example_call)) evs)"
proof -
  let ?wn = "reentrant_world\<lparr>in_logger := (\<lambda>t. t = 0)\<rparr>"
  let ?w1 = "reentrant_world\<lparr>heap := [1 \<mapsto> COtherLogger [example_call\<lparr>arg_text := ''nested''\<rparr>]],
        global_logger := Some 1\<rparr>"
  note T = log_log_impl_reentrant
  have n: "in_logger ?wn 0" by simp
  from T [where w = ?wn and t = 0 and n = 3 and B = example_build and c = example_call] n
  have 1: "log_log_impl 3 example_build 0 example_call ?wn = Some (Inr ?wn)" by blast
  have o1: "\<not> in_logger ?w1 0" "effective_logger ?w1 0 = Some 1"
    "heap ?w1 1 = Some (COtherLogger [example_call\<lparr>arg_text := ''nested''\<rparr>])"
    by (simp_all add: reentrant_world_def initial_world_def effective_logger_def)
  from T [where w = ?w1 and t = 0 and n = 0 and B = example_build and c = example_call
      and s = 1 and nested = "[example_call\<lparr>arg_text := ''nested''\<rparr>]"] o1
  have "log_log_impl (Suc 0) example_build 0 example_call ?w1 =
      Some (Inr (?w1\<lparr>calls := calls ?w1 @ [Call None 1 (M_Log (build_message example_build example_call))],
                     scope_logger := (scope_logger ?w1)(0 := Some 1)\<rparr>))"
    by blast
  then have 2: "log_log_impl (Suc 0) example_build 0 example_call ?w1 =
     Some (Inr (reentrant_world\<lparr>heap := [1 \<mapsto> COtherLogger [example_call\<lparr>arg_text := ''nested''\<rparr>]],
        global_logger := Some 1,
        calls := [Call None 1 (M_Log (build_message example_build example_call))],
        scope_logger := (\<lambda>t. None)(0 := Some 1)\<rparr>))"
    by (simp add: reentrant_world_def initial_world_def)
  have o2: "\<not> in_logger reentrant_world 0" "effective_logger reentrant_world 0 = Some 2"
    "heap reentrant_world 2 \<noteq> None" "(\<lambda>a. a) (2::nat) < 3"
    by (simp_all add: reentrant_world_def initial_world_def effective_logger_def)
  from T [where w = reentrant_world and t = 0 and n = 3 and B = example_build
      and c = example_call and s = 2 and rank = "\<lambda>a. a"]
    o2 reentrant_world_well_formed
  have "\<exists>w' evs. log_log_impl 3 example_build 0 example_call reentrant_world = Some (Inr w') \<and>
         calls w' = calls reentrant_world @ Call None 2 (M_Log (build_message example_build example_call)) # evs \<and>
         (\<forall>e \<in> set evs. meth e = M_Log (build_message example_build example_call))"
    by blast
  then have 3: "\<exists>w' evs. log_log_impl 3 example_build 0 example_call reentrant_world = Some (Inr w') \<and>
      calls w' = Call None 2 (M_Log (build_message example_build example_call)) # evs \<and>
      list_all (\<lambda>e. meth e = M_Log (build_message example_build example_call)) evs"
    by (simp add: reentrant_world_def initial_world_def list_all_iff)
  from n 1 o1(1) 2 o2(1,2,3) reentrant_world_well_formed 3 show ?thesis by blast
qed

text \<open>
  Claim C4, as amended. For a call of the entry point that is not made while a log call
  is executing on the same thread (\<open>in_logger\<close> is clear): when the thread's scope
  logger is set, the call returns and the record is delivered to it; when it is not set
  and the global logger is, the call returns and the record is delivered to the global
  logger; when neither is set the call returns and the world is unchanged (no error, no
  call to any sink, nothing buffered). \<^verbatim>\<open>log_set_scope_logger\<close> sets the scope logger of
  the thread to its argument, and to the global logger when the argument is null.
\<close>

theorem log_log_impl_effective_sink:
  assumes "\<not> in_logger w t"
  shows "(scope_logger w t = Some s \<and> well_formed rank (heap w) \<and> heap w s \<noteq> None \<and> rank s < n \<longrightarrow>
      (\<exists>w' evs. log_log_impl n B t c w = Some (Inr w') \<and>
         calls w' = calls w @ Call None s (M_Log (build_message B c)) # evs \<and>
         received s (calls w') = received s (calls w) @ [build_message B c])) \<and>
    (scope_logger w t = None \<and> global_logger w = Some g \<and> well_formed rank (heap w) \<and>
     heap w g \<noteq> None \<and> rank g < n \<longrightarrow>
      (\<exists>w' evs. log_log_impl n B t c w = Some (Inr w') \<and>
         calls w' = calls w @ Call None g (M_Log (build_message B c)) # evs \<and>
         received g (calls w') = received g (calls w) @ [build_message B c])) \<and>
    (scope_logger w t = None \<and> global_logger w = None \<longrightarrow>
      log_log_impl n B t c w = Some (Inr w)) \<and>
    scope_logger (log_set_scope_logger t (Some s) w) t = Some s \<and>
    scope_logger (log_set_scope_logger t None w) t = global_logger w \<and>
    global_logger (log_set_scope_logger t p w) = global_logger w \<and>
    in_logger (log_set_scope_logger t p w) = in_logger w \<and>
    heap (log_set_scope_logger t p w) = heap w"
proof (intro conjI impI)
  assume a: "scope_logger w t = Some s \<and> well_formed rank (heap w) \<and> heap w s \<noteq> None \<and> rank s < n"
  then have e: "effective_logger w t = Some s" by (simp add: effective_logger_scope)
  from a have "well_formed rank (heap w)" "heap w s \<noteq> None" "rank s < n" by simp_all
  from log_log_impl_received [OF assms e this, of B c]
  show "\<exists>w' evs. log_log_impl n B t c w = Some (Inr w') \<and>
         calls w' = calls w @ Call None s (M_Log (build_message B c)) # evs \<and>
         received s (calls w') = received s (calls w) @ [build_message B c]"
    by blast
next
  assume a: "scope_logger w t = None \<and> global_logger w = Some g \<and> well_formed rank (heap w) \<and>
     heap w g \<noteq> None \<and> rank g < n"
  then have e: "effective_logger w t = Some g" by (simp add: effective_logger_global)
  from a have "well_formed rank (heap w)" "heap w g \<noteq> None" "rank g < n" by simp_all
  from log_log_impl_received [OF assms e this, of B c]
  show "\<exists>w' evs. log_log_impl n B t c w = Some (Inr w') \<and>
         calls w' = calls w @ Call None g (M_Log (build_message B c)) # evs \<and>
         received g (calls w') = received g (calls w) @ [build_message B c]"
    by blast
next
  assume "scope_logger w t = None \<and> global_logger w = None"
  then have "effective_logger w t = None" by (simp add: effective_logger_def)
  with assms show "log_log_impl n B t c w = Some (Inr w)" by (rule log_log_impl_no_sink)
qed (simp_all add: log_set_scope_logger_def Let_def)

theorem log_log_impl_effective_sink_witness:
  "\<not> in_logger (example_world\<lparr>global_logger := Some 5, scope_logger := (\<lambda>t. None)(1 := Some 2)\<rparr>) 1 \<and>
   scope_logger (example_world\<lparr>global_logger := Some 5, scope_logger := (\<lambda>t. None)(1 := Some 2)\<rparr>) 1
     = Some 2 \<and>
   scope_logger (example_world\<lparr>global_logger := Some 5, scope_logger := (\<lambda>t. None)(1 := Some 2)\<rparr>) 0
     = None \<and>
   well_formed (\<lambda>a. a)
     (heap (example_world\<lparr>global_logger := Some 5, scope_logger := (\<lambda>t. None)(1 := Some 2)\<rparr>)) \<and>
   (\<exists>w' evs. log_log_impl 6 example_build 1 example_call
       (example_world\<lparr>global_logger := Some 5, scope_logger := (\<lambda>t. None)(1 := Some 2)\<rparr>) =
         Some (Inr w') \<and>
      calls w' = Call None 2 (M_Log (build_message example_build example_call)) # evs \<and>
      received 2 (calls w') = [build_message example_build example_call]) \<and>
   (\<exists>w' evs. log_log_impl 6 example_build 0 example_call
       (example_world\<lparr>global_logger := Some 5, scope_logger := (\<lambda>t. None)(1 := Some 2)\<rparr>) =
         Some (Inr w') \<and>
      calls w' = Call None 5 (M_Log (build_message example_build example_call)) # evs \<and>
      received 5 (calls w') = [build_message example_build example_call]) \<and>
   log_log_impl 0 example_build 0 example_call example_world = Some (Inr example_world)"
proof -
  let ?w = "example_world\<lparr>global_logger := Some 5, scope_logger := (\<lambda>t. None)(1 := Some 2)\<rparr>"
  have i: "\<not> in_logger ?w 1" "\<not> in_logger ?w 0" "\<not> in_logger example_world 0"
    by (simp_all add: example_world_def initial_world_def)
  have s: "scope_logger ?w 1 = Some 2" "scope_logger ?w 0 = None" "global_logger ?w = Some 5"
    "heap ?w 2 \<noteq> None" "heap ?w 5 \<noteq> None" "calls ?w = []"
    "scope_logger example_world 0 = None" "global_logger example_world = None"
    by (simp_all add: example_world_def initial_world_def)
  have wf: "well_formed (\<lambda>a. a) (heap ?w)" using example_world_well_formed by simp
  have f: "(\<lambda>a. a) (2::nat) < 6" "(\<lambda>a. a) (5::nat) < 6" by simp_all
  from log_log_impl_effective_sink [OF i(1), where s = 2 and rank = "\<lambda>a. a" and n = 6
      and B = example_build and c = example_call] s wf f
  have 1: "\<exists>w' evs. log_log_impl 6 example_build 1 example_call ?w = Some (Inr w') \<and>
      calls w' = Call None 2 (M_Log (build_message example_build example_call)) # evs \<and>
      received 2 (calls w') = [build_message example_build example_call]"
    by (simp add: received_def)
  from log_log_impl_effective_sink [OF i(2), where g = 5 and rank = "\<lambda>a. a" and n = 6
      and B = example_build and c = example_call] s wf f
  have 2: "\<exists>w' evs. log_log_impl 6 example_build 0 example_call ?w = Some (Inr w') \<and>
      calls w' = Call None 5 (M_Log (build_message example_build example_call)) # evs \<and>
      received 5 (calls w') = [build_message example_build example_call]"
    by (simp add: received_def)
  from log_log_impl_effective_sink [OF i(3), where n = 0 and B = example_build
      and c = example_call] s
  have 3: "log_log_impl 0 example_build 0 example_call example_world = Some (Inr example_world)"
    by blast
  from i(1) s(1,2) wf 1 2 3 show ?thesis by blast
qed

text \<open>
  Claim C4 as stated fails for a nested call: with \<open>in_logger\<close> set on the thread and a
  scope logger set, the call returns at once and the scope logger receives nothing.
\<close>

theorem log_log_impl_nested_counterexample:
  "scope_logger (example_world\<lparr>scope_logger := (\<lambda>t. None)(0 := Some 2),
       in_logger := (\<lambda>t. t = 0)\<rparr>) 0 = Some 2 \<and>
   heap (example_world\<lparr>scope_logger := (\<lambda>t. None)(0 := Some 2),
       in_logger := (\<lambda>t. t = 0)\<rparr>) 2 = Some (CLoggerAsync [] False False) \<and>
   log_log_impl 6 example_build 0 example_call
     (example_world\<lparr>scope_logger := (\<lambda>t. None)(0 := Some 2), in_logger := (\<lambda>t. t = 0)\<rparr>) =
     Some (Inr (example_world\<lparr>scope_logger := (\<lambda>t. None)(0 := Some 2),
       in_logger := (\<lambda>t. t = 0)\<rparr>)) \<and>
   received 2 (calls (example_world\<lparr>scope_logger := (\<lambda>t. None)(0 := Some 2),
       in_logger := (\<lambda>t. t = 0)\<rparr>)) = []"
  by (simp add: log_log_impl.simps example_world_def initial_world_def received_def)

text \<open>
  Claim C9. Every call of \<^verbatim>\<open>log_log_impl\<close> that returns leaves the reentrancy flags as
  they were at entry, so a call that is not nested ends with the flag of its thread
  cleared. With no sink the call returns, and once a global logger is set the thread's
  next call is delivered to it; with a sink the call returns with the flag cleared, and
  a second call on the same thread is delivered as well.
\<close>

theorem in_logger_restored:
  "(log_log_impl n B t c w = Some (Inr w') \<longrightarrow> in_logger w' = in_logger w) \<and>
   (\<not> in_logger w t \<and> effective_logger w t = None \<longrightarrow>
      log_log_impl n B t c w = Some (Inr w) \<and>
      (well_formed rank (heap w) \<and> heap w g \<noteq> None \<and> rank g < n \<longrightarrow>
         (\<exists>w1 w2. log_set_global_logger (Some g) w = Inr w1 \<and>
            log_log_impl n B t c2 w1 = Some (Inr w2) \<and> \<not> in_logger w2 t \<and>
            received g (calls w2) = received g (calls w) @ [build_message B c2]))) \<and>
   (\<not> in_logger w t \<and> effective_logger w t = Some s \<and> well_formed rank (heap w) \<and>
    heap w s \<noteq> None \<and> rank s < n \<longrightarrow>
      (\<exists>w1 w2. log_log_impl n B t c w = Some (Inr w1) \<and> \<not> in_logger w1 t \<and>
         log_log_impl n B t c2 w1 = Some (Inr w2) \<and> \<not> in_logger w2 t \<and>
         received s (calls w2) = received s (calls w) @ [build_message B c, build_message B c2]))"
proof (intro conjI impI)
  assume "log_log_impl n B t c w = Some (Inr w')"
  then have "keeps_registry w w'" by (rule log_log_impl_keeps)
  then show "in_logger w' = in_logger w" by (simp add: keeps_registry_def)
next
  assume a: "\<not> in_logger w t \<and> effective_logger w t = None"
  then show "log_log_impl n B t c w = Some (Inr w)" by (simp add: log_log_impl_no_sink)
next
  assume a: "\<not> in_logger w t \<and> effective_logger w t = None"
    and b: "well_formed rank (heap w) \<and> heap w g \<noteq> None \<and> rank g < n"
  from a have s: "scope_logger w t = None" "global_logger w = None"
    by (auto simp: effective_logger_def split: option.splits)
  define w1 where "w1 = w\<lparr>global_logger := Some g,
    atexit_registered := atexit_registered w @ [Fn_log_global_logger_finish]\<rparr>"
  have 1: "log_set_global_logger (Some g) w = Inr w1"
    using s by (simp add: log_set_global_logger_def compare_exchange_strong_def w1_def)
  have pre: "\<not> in_logger w1 t" "effective_logger w1 t = Some g" "well_formed rank (heap w1)"
    "heap w1 g \<noteq> None" "rank g < n"
    using a b s by (simp_all add: w1_def effective_logger_def)
  from log_log_impl_received [OF pre, of B c2] obtain w2 where
    "log_log_impl n B t c2 w1 = Some (Inr w2)" "\<not> in_logger w2 t"
    "received g (calls w2) = received g (calls w1) @ [build_message B c2]"
    by blast
  moreover have "calls w1 = calls w" by (simp add: w1_def)
  ultimately show "\<exists>w1 w2. log_set_global_logger (Some g) w = Inr w1 \<and>
            log_log_impl n B t c2 w1 = Some (Inr w2) \<and> \<not> in_logger w2 t \<and>
            received g (calls w2) = received g (calls w) @ [build_message B c2]"
    using 1 by (metis (no_types))
next
  assume a: "\<not> in_logger w t \<and> effective_logger w t = Some s \<and> well_formed rank (heap w) \<and>
    heap w s \<noteq> None \<and> rank s < n"
  then have pre: "\<not> in_logger w t" "effective_logger w t = Some s" "well_formed rank (heap w)"
    "heap w s \<noteq> None" "rank s < n" by simp_all
  from log_log_impl_received [OF pre, of B c] obtain w1 where
    w1: "log_log_impl n B t c w = Some (Inr w1)"
      "received s (calls w1) = received s (calls w) @ [build_message B c]"
      "effective_logger w1 t = Some s" "\<not> in_logger w1 t"
      "well_formed rank (heap w1)" "heap w1 s \<noteq> None"
    by blast
  from log_log_impl_received [OF w1(4,3,5,6) pre(5), of B c2] obtain w2 where
    w2: "log_log_impl n B t c2 w1 = Some (Inr w2)" "\<not> in_logger w2 t"
      "received s (calls w2) = received s (calls w1) @ [build_message B c2]"
    by blast
  from w1(2) w2(3) have
    "received s (calls w2) = received s (calls w) @ [build_message B c, build_message B c2]"
    by simp
  with w1(1,4) w2(1,2) show "\<exists>w1 w2. log_log_impl n B t c w = Some (Inr w1) \<and> \<not> in_logger w1 t \<and>
         log_log_impl n B t c2 w1 = Some (Inr w2) \<and> \<not> in_logger w2 t \<and>
         received s (calls w2) = received s (calls w) @ [build_message B c, build_message B c2]"
    by blast
qed

theorem in_logger_restored_witness:
  "\<not> in_logger example_world 0 \<and> effective_logger example_world 0 = None \<and>
   well_formed (\<lambda>a. a) (heap example_world) \<and> heap example_world 5 \<noteq> None \<and>
   log_log_impl 6 example_build 0 example_call example_world = Some (Inr example_world) \<and>
   (\<exists>w1 w2. log_set_global_logger (Some 5) example_world = Inr w1 \<and>
      log_log_impl 6 example_build 0 (example_call\<lparr>arg_text := ''again''\<rparr>) w1 = Some (Inr w2) \<and>
      \<not> in_logger w2 0 \<and>
      received 5 (calls w2) = [build_message example_build (example_call\<lparr>arg_text := ''again''\<rparr>)]) \<and>
   \<not> in_logger (example_world\<lparr>global_logger := Some 5\<rparr>) 0 \<and>
   effective_logger (example_world\<lparr>global_logger := Some 5\<rparr>) 0 = Some 5 \<and>
   (\<exists>w1 w2. log_log_impl 6 example_build 0 example_call
        (example_world\<lparr>global_logger := Some 5\<rparr>) = Some (Inr w1) \<and>
      \<not> in_logger w1 0 \<and> in_logger w1 = in_logger (example_world\<lparr>global_logger := Some 5\<rparr>) \<and>
      log_log_impl 6 example_build 0 (example_call\<lparr>arg_text := ''again''\<rparr>) w1 = Some (Inr w2) \<and>
      \<not> in_logger w2 0 \<and>
      received 5 (calls w2) = [build_message example_build example_call,
        build_message example_build (example_call\<lparr>arg_text := ''again''\<rparr>)])"
proof -
  let ?g = "example_world\<lparr>global_logger := Some 5\<rparr>"
  let ?c2 = "example_call\<lparr>arg_text := ''again''\<rparr>"
  note T = in_logger_restored [where n = 6 and B = example_build and t = 0 and c = example_call
      and ?c2.0 = ?c2 and rank = "\<lambda>a. a"]
  have e: "\<not> in_logger example_world 0" "effective_logger example_world 0 = None"
    "heap example_world 5 \<noteq> None"
    by (simp_all add: example_world_def initial_world_def effective_logger_def)
  have r0: "received 5 (calls example_world) = []"
    by (simp add: example_world_def initial_world_def received_def)
  have f: "(\<lambda>a. a) (5::nat) < 6" by simp
  from T [where w = example_world and g = 5] e example_world_well_formed f
  have 1: "log_log_impl 6 example_build 0 example_call example_world = Some (Inr example_world)"
    and "\<exists>w1 w2. log_set_global_logger (Some 5) example_world = Inr w1 \<and>
      log_log_impl 6 example_build 0 ?c2 w1 = Some (Inr w2) \<and> \<not> in_logger w2 0 \<and>
      received 5 (calls w2) = received 5 (calls example_world) @ [build_message example_build ?c2]"
    by blast+
  then have 2: "\<exists>w1 w2. log_set_global_logger (Some 5) example_world = Inr w1 \<and>
      log_log_impl 6 example_build 0 ?c2 w1 = Some (Inr w2) \<and> \<not> in_logger w2 0 \<and>
      received 5 (calls w2) = [build_message example_build ?c2]"
    unfolding r0 append_Nil by blast
  have eg: "\<not> in_logger ?g 0" "effective_logger ?g 0 = Some 5" "heap ?g 5 \<noteq> None"
    by (simp_all add: example_world_def initial_world_def effective_logger_def)
  have rg: "received 5 (calls ?g) = []"
    by (simp add: example_world_def initial_world_def received_def)
  have wfg: "well_formed (\<lambda>a. a) (heap ?g)" using example_world_well_formed by simp
  from T [where w = ?g and s = 5] eg wfg f
  have "\<exists>w1 w2. log_log_impl 6 example_build 0 example_call ?g = Some (Inr w1) \<and>
      \<not> in_logger w1 0 \<and> log_log_impl 6 example_build 0 ?c2 w1 = Some (Inr w2) \<and>
      \<not> in_logger w2 0 \<and>
      received 5 (calls w2) = received 5 (calls ?g) @ [build_message example_build example_call,
        build_message example_build ?c2]"
    by blast
  then obtain w1 w2 where w: "log_log_impl 6 example_build 0 example_call ?g = Some (Inr w1)"
    "\<not> in_logger w1 0" "log_log_impl 6 example_build 0 ?c2 w1 = Some (Inr w2)" "\<not> in_logger w2 0"
    "received 5 (calls w2) = [build_message example_build example_call,
        build_message example_build ?c2]"
    unfolding rg append_Nil by blast
  from T [where w = ?g and w' = w1] w(1) have "in_logger w1 = in_logger ?g" by blast
  with w have 3: "\<exists>w1 w2. log_log_impl 6 example_build 0 example_call ?g = Some (Inr w1) \<and>
      \<not> in_logger w1 0 \<and> in_logger w1 = in_logger ?g \<and>
      log_log_impl 6 example_build 0 ?c2 w1 = Some (Inr w2) \<and> \<not> in_logger w2 0 \<and>
      received 5 (calls w2) = [build_message example_build example_call,
        build_message example_build ?c2]"
    by blast
  from e(1,2,3) example_world_well_formed 1 2 eg(1,2) 3 show ?thesis by blast
qed

subsection \<open>The global registry\<close>

lemma each_invariant:
  assumes "\<And>x v v'. x \<in> set xs \<Longrightarrow> P v \<Longrightarrow> f x v = Some (Inr v') \<Longrightarrow> P v'"
    and "P w" and "each f xs w = Some (Inr w')"
  shows "P w'"
  using assms
proof (induction xs arbitrary: w)
  case Nil
  then show ?case by simp
next
  case (Cons x xs)
  from Cons.prems(3) obtain w1 where w1: "f x w = Some (Inr w1)" "each f xs w1 = Some (Inr w')"
    by (auto split: option.splits sum.splits)
  have "P w1" by (rule Cons.prems(1) [OF _ Cons.prems(2) w1(1)]) simp
  show ?case by (rule Cons.IH [OF _ \<open>P w1\<close> w1(2)]) (use Cons.prems(1) in auto)
qed

lemma log_set_global_logger_first:
  assumes "global_logger w = None"
  shows "log_set_global_logger p w =
    Inr (w\<lparr>global_logger := p,
           atexit_registered := atexit_registered w @ [Fn_log_global_logger_finish]\<rparr>)"
  using assms by (simp add: log_set_global_logger_def compare_exchange_strong_def)

lemma log_set_global_logger_second:
  assumes "global_logger w = Some g"
  shows "log_set_global_logger p w =
    Inl (AssertFailed ''global logger has already been set and can only be set once'')"
  using assms by (simp add: log_set_global_logger_def compare_exchange_strong_def dbg_assert_def)

lemma api_step_keeps:
  assumes "api_step n B a w = Some (Inr w')"
  shows "(\<exists>p. a = Api_log_set_global_logger p \<and> global_logger w = None \<and>
            w' = w\<lparr>global_logger := p,
              atexit_registered := atexit_registered w @ [Fn_log_global_logger_finish]\<rparr>) \<or>
         (\<exists>u q. a = Api_log_set_scope_logger u q \<and> w' = log_set_scope_logger u q w) \<or>
         (\<exists>u. a = Api_log_get_scope_logger u \<and> w' = snd (log_get_scope_logger u w)) \<or>
         ((\<forall>p. a \<noteq> Api_log_set_global_logger p) \<and> (\<forall>u q. a \<noteq> Api_log_set_scope_logger u q) \<and>
          keeps_registry w w')"
proof (cases a)
  case (Api_log_set_global_logger p)
  show ?thesis
  proof (cases "global_logger w")
    case None
    with assms Api_log_set_global_logger show ?thesis
      by (simp add: log_set_global_logger_first)
  next
    case (Some g)
    with assms Api_log_set_global_logger show ?thesis
      by (simp add: log_set_global_logger_second)
  qed
next
  case Api_log_global_logger_finish
  with assms have "keeps_registry w w'"
    by (auto simp: log_global_logger_finish_def intro: GlobalFinish_keeps_registry)
  with Api_log_global_logger_finish show ?thesis by simp
next
  case (Api_log_get_scope_logger u)
  with assms show ?thesis by auto
next
  case (Api_log_set_scope_logger u q)
  with assms show ?thesis by auto
next
  case (Api_log_log_impl u c)
  with assms have "keeps_registry w w'" by (auto intro: log_log_impl_keeps)
  with Api_log_log_impl show ?thesis by simp
next
  case (Api_CFutureLogger_Set u this pLogger)
  with assms have "keeps_registry w w'" by (auto intro: Set_keeps_registry)
  with Api_CFutureLogger_Set show ?thesis by simp
qed

lemma scope_functions_fields:
  "global_logger (log_set_scope_logger u q w) = global_logger w"
  "atexit_registered (log_set_scope_logger u q w) = atexit_registered w"
  "global_logger (snd (log_get_scope_logger u w)) = global_logger w"
  "atexit_registered (snd (log_get_scope_logger u w)) = atexit_registered w"
  by (simp_all add: log_set_scope_logger_def log_get_scope_logger_def Let_def)

lemma api_step_global:
  assumes "global_logger w = Some g" and "api_step n B a w = Some (Inr w')"
  shows "global_logger w' = Some g"
  using api_step_keeps [OF assms(2)] assms(1)
  by (auto simp: scope_functions_fields keeps_registry_def)

lemma run_global:
  assumes "global_logger w = Some g" and "run n B prog w = Some (Inr w')"
  shows "global_logger w' = Some g"
  using assms(2) unfolding run_def
  by (rule each_invariant [where P = "\<lambda>v. global_logger v = Some g", rotated 2])
    (auto intro: api_step_global assms(1))

lemma api_step_no_override:
  assumes "global_logger w = Some g" and "scope_logger w u = None \<or> scope_logger w u = Some g"
    and "\<forall>q. a \<noteq> Api_log_set_scope_logger u q" and "api_step n B a w = Some (Inr w')"
  shows "scope_logger w' u = None \<or> scope_logger w' u = Some g"
  using api_step_keeps [OF assms(4)]
proof (elim disjE exE conjE)
  fix p assume "global_logger w = None"
  with assms(1) show ?thesis by simp
next
  fix v q assume "a = Api_log_set_scope_logger v q" "w' = log_set_scope_logger v q w"
  with assms(2,3) show ?thesis by (auto simp: log_set_scope_logger_def Let_def)
next
  fix v assume "w' = snd (log_get_scope_logger v w)"
  with assms(1,2) show ?thesis by (auto simp: log_get_scope_logger_def Let_def)
next
  assume "keeps_registry w w'"
  with assms(1,2) show ?thesis unfolding keeps_registry_def by metis
qed

lemma run_no_override:
  assumes g: "global_logger w = Some g"
    and s: "scope_logger w u = None \<or> scope_logger w u = Some g"
    and a: "\<forall>q. Api_log_set_scope_logger u q \<notin> set prog"
    and r: "run n B prog w = Some (Inr w')"
  shows "scope_logger w' u = None \<or> scope_logger w' u = Some g"
proof -
  let ?P = "\<lambda>v. global_logger v = Some g \<and> (scope_logger v u = None \<or> scope_logger v u = Some g)"
  have "?P w'"
  proof (rule each_invariant [where P = ?P and f = "api_step n B" and xs = prog])
    show "?P w" using g s by simp
    show "each (api_step n B) prog w = Some (Inr w')" using r by (simp add: run_def)
  next
    fix x v v' assume x: "x \<in> set prog" and P: "?P v" and st: "api_step n B x v = Some (Inr v')"
    from x a have "\<forall>q. x \<noteq> Api_log_set_scope_logger u q" by auto
    with P st have "global_logger v' = Some g"
      and "scope_logger v' u = None \<or> scope_logger v' u = Some g"
      using api_step_global [of v g n B x v'] api_step_no_override [of v g u x n B v']
      by simp_all
    then show "?P v'" by simp
  qed
  then show ?thesis by simp
qed

lemma log_get_scope_logger_global:
  assumes "global_logger w = Some g" and "scope_logger w u = None \<or> scope_logger w u = Some g"
  shows "fst (log_get_scope_logger u w) = Some g"
  using assms by (auto simp: log_get_scope_logger_def Let_def)

lemma api_step_exit_invariant:
  assumes J: "(atexit_registered w = [] \<and> global_logger w = None) \<or>
      (atexit_registered w = [Fn_log_global_logger_finish] \<and> global_logger w \<noteq> None)"
    and a: "a \<noteq> Api_log_set_global_logger None" and st: "api_step n B a w = Some (Inr w')"
  shows "(atexit_registered w' = [] \<and> global_logger w' = None) \<or>
      (atexit_registered w' = [Fn_log_global_logger_finish] \<and> global_logger w' \<noteq> None)"
  using api_step_keeps [OF st]
proof (elim disjE exE conjE)
  fix p assume "a = Api_log_set_global_logger p" "global_logger w = None"
    "w' = w\<lparr>global_logger := p,
       atexit_registered := atexit_registered w @ [Fn_log_global_logger_finish]\<rparr>"
  with J a show ?thesis by auto
next
  fix u q assume "w' = log_set_scope_logger u q w"
  with J show ?thesis by (simp add: scope_functions_fields)
next
  fix u assume "w' = snd (log_get_scope_logger u w)"
  with J show ?thesis by (simp add: scope_functions_fields)
next
  assume "keeps_registry w w'"
  with J show ?thesis by (simp add: keeps_registry_def)
qed

lemma run_exit_invariant:
  assumes "atexit_registered w = []" and "global_logger w = None"
    and "Api_log_set_global_logger None \<notin> set prog" and "run n B prog w = Some (Inr w')"
  shows "(atexit_registered w' = [] \<and> global_logger w' = None) \<or>
      (atexit_registered w' = [Fn_log_global_logger_finish] \<and> global_logger w' \<noteq> None)"
proof -
  let ?J = "\<lambda>v. (atexit_registered v = [] \<and> global_logger v = None) \<or>
      (atexit_registered v = [Fn_log_global_logger_finish] \<and> global_logger v \<noteq> None)"
  show ?thesis
  proof (rule each_invariant [where P = ?J and f = "api_step n B" and xs = prog])
    show "?J w" using assms(1,2) by simp
    show "each (api_step n B) prog w = Some (Inr w')" using assms(4) by (simp add: run_def)
  next
    fix x v v' assume "x \<in> set prog" and J: "?J v" and st: "api_step n B x v = Some (Inr v')"
    with assms(3) have "x \<noteq> Api_log_set_global_logger None" by auto
    from api_step_exit_invariant [OF J this st] show "?J v'" .
  qed
qed

lemma process_exit_one:
  assumes "atexit_registered w = [Fn_log_global_logger_finish]"
  shows "process_exit n w = ILogger_GlobalFinish n None (global_logger w) w"
  using assms
  by (simp add: process_exit_def log_global_logger_finish_def
      split: option.splits sum.splits)

text \<open>
  Claim C2, as amended. While no global logger is set, \<^verbatim>\<open>log_set_global_logger\<close> with a
  logger that is not null publishes it (and registers the exit function). Once a logger
  that is not null is published, every further call, whatever its argument, fails the
  assertion and replaces nothing. After any program that follows, the published logger is
  still the global logger, a further set still fails, and \<^verbatim>\<open>log_get_scope_logger\<close> returns
  the published logger on every thread that had no scope override and set none.
\<close>

theorem log_set_global_logger_once:
  "(global_logger w = None \<longrightarrow>
      log_set_global_logger (Some g) w =
        Inr (w\<lparr>global_logger := Some g,
               atexit_registered := atexit_registered w @ [Fn_log_global_logger_finish]\<rparr>)) \<and>
   (global_logger w = Some g \<longrightarrow>
      log_set_global_logger p w =
        Inl (AssertFailed ''global logger has already been set and can only be set once'')) \<and>
   (global_logger w = Some g \<and> run n B prog w = Some (Inr w') \<longrightarrow>
      global_logger w' = Some g \<and>
      log_set_global_logger p w' =
        Inl (AssertFailed ''global logger has already been set and can only be set once'') \<and>
      (\<forall>u. (scope_logger w u = None \<or> scope_logger w u = Some g) \<and>
           (\<forall>q. Api_log_set_scope_logger u q \<notin> set prog) \<longrightarrow>
           fst (log_get_scope_logger u w') = Some g))"
proof (intro conjI impI allI)
  assume "global_logger w = None"
  then show "log_set_global_logger (Some g) w =
        Inr (w\<lparr>global_logger := Some g,
               atexit_registered := atexit_registered w @ [Fn_log_global_logger_finish]\<rparr>)"
    by (rule log_set_global_logger_first)
next
  assume "global_logger w = Some g"
  then show "log_set_global_logger p w =
        Inl (AssertFailed ''global logger has already been set and can only be set once'')"
    by (rule log_set_global_logger_second)
next
  assume a: "global_logger w = Some g \<and> run n B prog w = Some (Inr w')"
  then show g': "global_logger w' = Some g" by (blast intro: run_global)
  then show "log_set_global_logger p w' =
        Inl (AssertFailed ''global logger has already been set and can only be set once'')"
    by (rule log_set_global_logger_second)
  fix u
  assume b: "(scope_logger w u = None \<or> scope_logger w u = Some g) \<and>
           (\<forall>q. Api_log_set_scope_logger u q \<notin> set prog)"
  with a have "scope_logger w' u = None \<or> scope_logger w' u = Some g"
    using run_no_override [of w g u prog n B w'] by simp
  with g' show "fst (log_get_scope_logger u w') = Some g"
    by (rule log_get_scope_logger_global)
qed

theorem log_set_global_logger_once_witness:
  "global_logger example_world = None \<and>
   log_set_global_logger (Some 5) example_world =
     Inr (example_world\<lparr>global_logger := Some 5,
            atexit_registered := [Fn_log_global_logger_finish]\<rparr>) \<and>
   log_set_global_logger (Some 1)
     (example_world\<lparr>global_logger := Some 5,
        atexit_registered := [Fn_log_global_logger_finish]\<rparr>) =
     Inl (AssertFailed ''global logger has already been set and can only be set once'') \<and>
   (\<exists>w'. run 6 example_build [Api_log_log_impl 0 example_call]
       (example_world\<lparr>global_logger := Some 5,
          atexit_registered := [Fn_log_global_logger_finish]\<rparr>) = Some (Inr w') \<and>
      global_logger w' = Some 5 \<and>
      log_set_global_logger None w' =
        Inl (AssertFailed ''global logger has already been set and can only be set once'') \<and>
      fst (log_get_scope_logger 0 w') = Some 5 \<and> fst (log_get_scope_logger 7 w') = Some 5)"
proof -
  let ?w1 = "example_world\<lparr>global_logger := Some 5,
            atexit_registered := [Fn_log_global_logger_finish]\<rparr>"
  have e: "global_logger example_world = None" "atexit_registered example_world = []"
    by (simp_all add: example_world_def initial_world_def)
  from log_set_global_logger_once [where w = example_world and g = 5] e
  have 1: "log_set_global_logger (Some 5) example_world = Inr ?w1" by simp
  have g1: "global_logger ?w1 = Some 5" by simp
  from log_set_global_logger_once [where w = ?w1 and g = 5 and p = "Some 1"] g1
  have 2: "log_set_global_logger (Some 1) ?w1 =
     Inl (AssertFailed ''global logger has already been set and can only be set once'')"
    by blast
  have pre: "\<not> in_logger ?w1 0" "effective_logger ?w1 0 = Some 5"
    "well_formed (\<lambda>a. a) (heap ?w1)" "heap ?w1 5 \<noteq> None" "(\<lambda>a. a) (5::nat) < 6"
    using example_world_well_formed
    by (simp_all add: example_world_def initial_world_def effective_logger_def)
  from log_log_impl_delivers [OF pre, of example_build example_call] obtain w' where
    "log_log_impl 6 example_build 0 example_call ?w1 = Some (Inr w')" by blast
  then have r: "run 6 example_build [Api_log_log_impl 0 example_call] ?w1 = Some (Inr w')"
    by (simp add: run_def)
  have s: "scope_logger ?w1 u = None" for u
    by (simp add: example_world_def initial_world_def)
  have a: "\<forall>q. Api_log_set_scope_logger u q \<notin> set [Api_log_log_impl 0 example_call]" for u
    by simp
  from log_set_global_logger_once [where w = ?w1 and g = 5 and p = None and n = 6
      and B = example_build and prog = "[Api_log_log_impl 0 example_call]" and w' = w'] g1 r
  have 3: "global_logger w' = Some 5"
    "log_set_global_logger None w' =
        Inl (AssertFailed ''global logger has already been set and can only be set once'')"
    and 4: "\<forall>u. (scope_logger ?w1 u = None \<or> scope_logger ?w1 u = Some 5) \<and>
           (\<forall>q. Api_log_set_scope_logger u q \<notin> set [Api_log_log_impl 0 example_call]) \<longrightarrow>
           fst (log_get_scope_logger u w') = Some 5"
    by blast+
  from 4 s a have 5: "fst (log_get_scope_logger 0 w') = Some 5"
    "fst (log_get_scope_logger 7 w') = Some 5" by blast+
  from e(1) 1 2 r 3 5 show ?thesis by blast
qed

text \<open>
  Claim C2 as stated, for any first call, fails when the first call is given a null
  pointer: the exchange of null for null succeeds and publishes nothing, so the second
  call, here with the live logger at address 5, returns as well, sets the pointer and
  registers the exit function a second time.
\<close>

theorem log_set_global_logger_twice_counterexample:
  "log_set_global_logger None example_world =
     Inr (example_world\<lparr>atexit_registered := [Fn_log_global_logger_finish]\<rparr>) \<and>
   log_set_global_logger (Some 5)
     (example_world\<lparr>atexit_registered := [Fn_log_global_logger_finish]\<rparr>) =
     Inr (example_world\<lparr>global_logger := Some 5,
            atexit_registered := [Fn_log_global_logger_finish, Fn_log_global_logger_finish]\<rparr>) \<and>
   heap example_world 5 \<noteq> None"
  by (simp add: log_set_global_logger_def compare_exchange_strong_def example_world_def
      initial_world_def)

text \<open>
  Claim C10, as amended. \<^verbatim>\<open>log_global_logger_finish\<close> calls through the global logger
  without a null check: with no global logger it dereferences null. After a
  \<^verbatim>\<open>log_set_global_logger\<close> that succeeded with a logger that is not null, the global
  logger is that logger and no program changes it again. Only a successful
  \<^verbatim>\<open>log_set_global_logger\<close> registers the exit function; so when every
  \<^verbatim>\<open>log_set_global_logger\<close> of the program was given a logger that is not null and an exit
  function is registered, the global logger is set at process exit, the exit runs
  \<^verbatim>\<open>GlobalFinish\<close> on it, and on a well-formed store that call returns.
\<close>

theorem log_global_logger_finish_precondition:
  "(global_logger w = None \<longrightarrow> log_global_logger_finish (Suc n) w = Some (Inl NullDeref)) \<and>
   (log_set_global_logger (Some g) w = Inr w1 \<longrightarrow>
      global_logger w1 = Some g \<and>
      atexit_registered w1 = atexit_registered w @ [Fn_log_global_logger_finish]) \<and>
   (global_logger w = Some g \<and> run n B prog w = Some (Inr w') \<longrightarrow> global_logger w' = Some g) \<and>
   (api_step n B a w = Some (Inr w') \<and> atexit_registered w' \<noteq> atexit_registered w \<longrightarrow>
      (\<exists>p. a = Api_log_set_global_logger p \<and> log_set_global_logger p w = Inr w')) \<and>
   (atexit_registered w = [] \<and> global_logger w = None \<and>
    Api_log_set_global_logger None \<notin> set prog \<and> run n B prog w = Some (Inr w') \<and>
    atexit_registered w' \<noteq> [] \<longrightarrow>
      (\<exists>l. global_logger w' = Some l \<and>
         process_exit n w' = ILogger_GlobalFinish n None (Some l) w' \<and>
         (well_formed rank (heap w') \<and> heap w' l \<noteq> None \<and> rank l < n \<longrightarrow>
            (\<exists>w'' evs. process_exit n w' = Some (Inr w'') \<and>
               calls w'' = calls w' @ Call None l M_GlobalFinish # evs))))"
proof (intro conjI impI)
  assume "global_logger w = None"
  then show "log_global_logger_finish (Suc n) w = Some (Inl NullDeref)"
    by (simp add: log_global_logger_finish_def)
next
  assume a: "log_set_global_logger (Some g) w = Inr w1"
  have n: "global_logger w = None"
  proof (cases "global_logger w")
    case (Some x)
    with a show ?thesis by (simp add: log_set_global_logger_second)
  qed simp
  from a show "global_logger w1 = Some g"
    and "atexit_registered w1 = atexit_registered w @ [Fn_log_global_logger_finish]"
    unfolding log_set_global_logger_first [OF n] by auto
next
  assume "global_logger w = Some g \<and> run n B prog w = Some (Inr w')"
  then show "global_logger w' = Some g" by (blast intro: run_global)
next
  assume a: "api_step n B a w = Some (Inr w') \<and> atexit_registered w' \<noteq> atexit_registered w"
  then have st: "api_step n B a w = Some (Inr w')"
    and ne: "atexit_registered w' \<noteq> atexit_registered w" by simp_all
  from api_step_keeps [OF st] ne obtain p where p: "a = Api_log_set_global_logger p"
    by (auto simp: scope_functions_fields keeps_registry_def)
  with st show "\<exists>p. a = Api_log_set_global_logger p \<and> log_set_global_logger p w = Inr w'"
    by simp
next
  assume a: "atexit_registered w = [] \<and> global_logger w = None \<and>
    Api_log_set_global_logger None \<notin> set prog \<and> run n B prog w = Some (Inr w') \<and>
    atexit_registered w' \<noteq> []"
  then have "atexit_registered w = []" "global_logger w = None"
    "Api_log_set_global_logger None \<notin> set prog" "run n B prog w = Some (Inr w')"
    by simp_all
  from run_exit_invariant [OF this] a obtain l where
    l: "global_logger w' = Some l" "atexit_registered w' = [Fn_log_global_logger_finish]"
    by auto
  have pe: "process_exit n w' = ILogger_GlobalFinish n None (Some l) w'"
    using process_exit_one [OF l(2), of n] l(1) by simp
  have "\<exists>w'' evs. process_exit n w' = Some (Inr w'') \<and>
               calls w'' = calls w' @ Call None l M_GlobalFinish # evs"
    if "well_formed rank (heap w') \<and> heap w' l \<noteq> None \<and> rank l < n"
  proof -
    from that have "well_formed rank (heap w')" "heap w' l \<noteq> None" "rank l < n" by simp_all
    from GlobalFinish_unfolded [OF this, of None] show ?thesis unfolding pe by blast
  qed
  with l(1) pe show "\<exists>l. global_logger w' = Some l \<and>
         process_exit n w' = ILogger_GlobalFinish n None (Some l) w' \<and>
         (well_formed rank (heap w') \<and> heap w' l \<noteq> None \<and> rank l < n \<longrightarrow>
            (\<exists>w'' evs. process_exit n w' = Some (Inr w'') \<and>
               calls w'' = calls w' @ Call None l M_GlobalFinish # evs))"
    by blast
qed

theorem log_global_logger_finish_precondition_witness:
  "global_logger example_world = None \<and> atexit_registered example_world = [] \<and>
   log_global_logger_finish (Suc 0) example_world = Some (Inl NullDeref) \<and>
   (\<exists>w'. run 6 example_build [Api_log_set_global_logger (Some 5), Api_log_log_impl 0 example_call]
        example_world = Some (Inr w') \<and>
      global_logger w' = Some 5 \<and> atexit_registered w' = [Fn_log_global_logger_finish] \<and>
      well_formed (\<lambda>a. a) (heap w') \<and> heap w' 5 \<noteq> None \<and>
      (\<exists>w'' evs. process_exit 6 w' = Some (Inr w'') \<and>
         calls w'' = calls w' @ Call None 5 M_GlobalFinish # evs))"
proof -
  let ?prog = "[Api_log_set_global_logger (Some 5), Api_log_log_impl 0 example_call]"
  let ?w1 = "example_world\<lparr>global_logger := Some 5,
            atexit_registered := atexit_registered example_world @ [Fn_log_global_logger_finish]\<rparr>"
  note T = log_global_logger_finish_precondition
  have e: "global_logger example_world = None" "atexit_registered example_world = []"
    by (simp_all add: example_world_def initial_world_def)
  from T [where w = example_world and n = 0] e(1)
  have 1: "log_global_logger_finish (Suc 0) example_world = Some (Inl NullDeref)" by blast
  have s: "log_set_global_logger (Some 5) example_world = Inr ?w1"
    by (rule log_set_global_logger_first [OF e(1)])
  have pre: "\<not> in_logger ?w1 0" "effective_logger ?w1 0 = Some 5"
    "well_formed (\<lambda>a. a) (heap ?w1)" "heap ?w1 5 \<noteq> None" "(\<lambda>a. a) (5::nat) < 6"
    using example_world_well_formed
    by (simp_all add: example_world_def initial_world_def effective_logger_def)
  from log_log_impl_delivers [OF pre, of example_build example_call] obtain w' where
    w': "log_log_impl 6 example_build 0 example_call ?w1 = Some (Inr w')"
      "well_formed (\<lambda>a. a) (heap w')"
      "\<forall>b. map_option shape (heap w' b) = map_option shape (heap ?w1 b)"
      "global_logger w' = global_logger ?w1" "atexit_registered w' = atexit_registered ?w1"
    by blast
  from s w'(1) have r: "run 6 example_build ?prog example_world = Some (Inr w')"
    by (simp add: run_def)
  from w'(4) have g: "global_logger w' = Some 5" by simp
  from w'(5) e(2) have a: "atexit_registered w' = [Fn_log_global_logger_finish]" by simp
  from w'(3) pre(4) have live: "heap w' 5 \<noteq> None" by (rule shape_live)
  have np: "Api_log_set_global_logger None \<notin> set ?prog" by simp
  from a have ne: "atexit_registered w' \<noteq> []" by simp
  from T [where w = example_world and n = 6 and B = example_build and prog = ?prog
      and w' = w' and rank = "\<lambda>a. a"] e np r ne
  obtain l where l: "global_logger w' = Some l"
    "well_formed (\<lambda>a. a) (heap w') \<and> heap w' l \<noteq> None \<and> (\<lambda>a. a) l < 6 \<longrightarrow>
       (\<exists>w'' evs. process_exit 6 w' = Some (Inr w'') \<and>
          calls w'' = calls w' @ Call None l M_GlobalFinish # evs)"
    by blast
  from l(1) g have "l = 5" by simp
  with l(2) w'(2) live have "\<exists>w'' evs. process_exit 6 w' = Some (Inr w'') \<and>
         calls w'' = calls w' @ Call None 5 M_GlobalFinish # evs"
    by simp
  with e 1 r g a w'(2) live show ?thesis by blast
qed

text \<open>
  Claim C10 as stated fails: \<^verbatim>\<open>log_set_global_logger(nullptr)\<close> succeeds (the exchange of
  null for null succeeds), registers the exit function and leaves the global logger null,
  and process exit then dereferences null.
\<close>

theorem log_set_global_logger_null_counterexample:
  "log_set_global_logger None initial_world =
     Inr (initial_world\<lparr>atexit_registered := [Fn_log_global_logger_finish]\<rparr>) \<and>
   global_logger (initial_world\<lparr>atexit_registered := [Fn_log_global_logger_finish]\<rparr>) = None \<and>
   process_exit (Suc 0) (initial_world\<lparr>atexit_registered := [Fn_log_global_logger_finish]\<rparr>) =
     Some (Inl NullDeref)"
  by (simp add: log_set_global_logger_def compare_exchange_strong_def initial_world_def
      process_exit_def log_global_logger_finish_def)

subsection \<open>Truncation\<close>

lemma c_str_no_NUL: "CHR 0x00 \<notin> set (c_str mem)"
  unfolding c_str_def by (auto dest: set_takeWhileD)

lemma c_str_append: "CHR 0x00 \<notin> set xs \<Longrightarrow> c_str (xs @ ys) = xs @ c_str ys"
  unfolding c_str_def by (induction xs) auto

lemma c_str_take: "c_str (take k mem) = take k (c_str mem)"
  unfolding c_str_def
proof (induction mem arbitrary: k)
  case Nil
  then show ?case by simp
next
  case (Cons x mem)
  then show ?case by (cases k) auto
qed

lemma c_str_terminated: "c_str (xs @ CHR 0x00 # ys) = c_str xs"
  unfolding c_str_def by (induction xs) auto

lemma take_no_NUL: "CHR 0x00 \<notin> set xs \<Longrightarrow> CHR 0x00 \<notin> set (take k xs)"
  by (auto dest: in_set_takeD)

lemma str_copy_no_NUL: "CHR 0x00 \<notin> set (str_copy src k)"
  unfolding str_copy_def by (rule take_no_NUL [OF c_str_no_NUL])

lemma str_timestamp_format_no_NUL: "CHR 0x00 \<notin> set (str_timestamp_format k now)"
  unfolding str_timestamp_format_def by (rule take_no_NUL [OF c_str_no_NUL])

lemma format_no_NUL:
  "CHR 0x00 \<notin> set (''['' @ str_timestamp_format a now @ '']['' @ str_copy sys b @ '']: '')"
  using str_copy_no_NUL [of sys b] str_timestamp_format_no_NUL [of a now] by simp

lemma take_then_rest:
  "take k F @ take (k - length (take k F)) Y = take k (F @ Y)"
  by (cases "length F \<le> k") simp_all

lemma line_prefix_eq:
  "line_prefix B c = take (sizeof_aLine B - 1)
     (''['' @ str_timestamp_format (sizeof_aTimestamp B) (arg_now c) @ ''][''
        @ str_copy (arg_sys c) (sizeof_aSystem B) @ '']: '')"
  unfolding line_prefix_def str_format_def by (simp only: c_str_id [OF format_no_NUL])

lemma line_prefix_no_NUL: "CHR 0x00 \<notin> set (line_prefix B c)"
  unfolding line_prefix_eq by (rule take_no_NUL [OF format_no_NUL])

lemma line_prefix_length: "length (line_prefix B c) \<le> sizeof_aLine B - 1"
  unfolding line_prefix_eq by simp

lemma str_length_line_prefix: "str_length (line_prefix B c) = length (line_prefix B c)"
  by (simp add: str_length_def c_str_id line_prefix_no_NUL)

text \<open>
  Without \<^verbatim>\<open>CONF_FAMILY_WINDOWS\<close> the line is the whole line cut to the capacity of the
  array less the terminator.
\<close>

lemma posix_line:
  assumes "\<not> CONF_FAMILY_WINDOWS B" and "0 < sizeof_aLine B"
  shows "c_str (line_memory B c) =
     take (sizeof_aLine B - 1)
       (''['' @ str_timestamp_format (sizeof_aTimestamp B) (arg_now c) @ ''][''
          @ str_copy (arg_sys c) (sizeof_aSystem B) @ '']: '' @ c_str (arg_text c))"
proof -
  let ?F = "''['' @ str_timestamp_format (sizeof_aTimestamp B) (arg_now c) @ ''][''
          @ str_copy (arg_sys c) (sizeof_aSystem B) @ '']: ''"
  let ?P = "line_prefix B c"
  let ?M = "sizeof_aLine B - length ?P"
  have M: "0 < ?M" using line_prefix_length [of B c] assms(2) by simp
  have "line_memory B c = ?P @ (take (?M - 1) (arg_text c) @ [CHR 0x00]) @ after_aLine B"
    using assms(1) M by (simp add: line_memory_def Let_def str_length_line_prefix vsnprintf_def)
  then have "c_str (line_memory B c) = ?P @ c_str (take (?M - 1) (arg_text c))"
    using c_str_terminated [of "take (?M - 1) (arg_text c)" "after_aLine B"]
    by (simp add: c_str_append line_prefix_no_NUL)
  also have "\<dots> = ?P @ take (?M - 1) (c_str (arg_text c))" by (simp add: c_str_take)
  also have "\<dots> = take (sizeof_aLine B - 1) (?F @ c_str (arg_text c))"
  proof -
    have "?M - 1 = (sizeof_aLine B - 1) - length (take (sizeof_aLine B - 1) ?F)"
      unfolding line_prefix_eq by simp
    then show ?thesis
      unfolding line_prefix_eq using take_then_rest [of "sizeof_aLine B - 1" ?F "c_str (arg_text c)"]
      by (simp only:)
  qed
  finally show ?thesis by (simp del: append_Cons)
qed

lemma posix_message:
  assumes "\<not> CONF_FAMILY_WINDOWS B" and "0 < sizeof_aLine B"
  shows "m_aSystem (build_message B c) = take (sizeof_aSystem B - 1) (c_str (arg_sys c))"
    and "m_aLine (build_message B c) =
      take (sizeof_aLine B - 1)
        (''['' @ m_aTimestamp (build_message B c) @ '']['' @ m_aSystem (build_message B c)
           @ '']: '' @ c_str (arg_text c))"
    and "m_LineLength (build_message B c) = length (m_aLine (build_message B c))"
    and "m_LineLength (build_message B c) \<le> sizeof_aLine B - 1"
proof -
  show "m_aSystem (build_message B c) = take (sizeof_aSystem B - 1) (c_str (arg_sys c))"
    by (simp add: build_message_def Let_def str_copy_def)
  show l: "m_aLine (build_message B c) =
      take (sizeof_aLine B - 1)
        (''['' @ m_aTimestamp (build_message B c) @ '']['' @ m_aSystem (build_message B c)
           @ '']: '' @ c_str (arg_text c))"
    using posix_line [OF assms, of c] by (simp add: build_message_def Let_def del: append_Cons)
  show "m_LineLength (build_message B c) = length (m_aLine (build_message B c))"
    by (simp add: build_message_def Let_def str_length_def)
  then show "m_LineLength (build_message B c) \<le> sizeof_aLine B - 1"
    unfolding l by simp
qed

text \<open>
  With \<^verbatim>\<open>CONF_FAMILY_WINDOWS\<close> and a message that fills the rest of the array,
  \<^verbatim>\<open>_vsnprintf\<close> leaves the array without a NUL and \<^verbatim>\<open>str_length\<close> reads past its end.
\<close>

lemma windows_line:
  assumes "CONF_FAMILY_WINDOWS B"
    and "sizeof_aLine B - length (line_prefix B c) \<le> length (arg_text c)"
    and "CHR 0x00 \<notin> set (arg_text c)"
  shows "c_str (line_memory B c) =
     line_prefix B c @ take (sizeof_aLine B - length (line_prefix B c)) (arg_text c)
       @ c_str (after_aLine B)"
proof -
  let ?P = "line_prefix B c"
  let ?M = "sizeof_aLine B - length ?P"
  have "line_memory B c = ?P @ take ?M (arg_text c) @ after_aLine B"
    using assms(1,2) by (simp add: line_memory_def Let_def str_length_line_prefix msvc_vsnprintf_def)
  moreover have "CHR 0x00 \<notin> set (?P @ take ?M (arg_text c))"
    using line_prefix_no_NUL [of B c] take_no_NUL [OF assms(3), of ?M] by simp
  ultimately show ?thesis using c_str_append [of "?P @ take ?M (arg_text c)" "after_aLine B"]
    by simp
qed

lemma windows_LineLength:
  assumes "CONF_FAMILY_WINDOWS B"
    and "sizeof_aLine B - length (line_prefix B c) \<le> length (arg_text c)"
    and "CHR 0x00 \<notin> set (arg_text c)" and "0 < sizeof_aLine B"
  shows "m_LineLength (build_message B c) = sizeof_aLine B + str_length (after_aLine B)"
proof -
  have "length (line_prefix B c) \<le> sizeof_aLine B" using line_prefix_length [of B c] by simp
  then show ?thesis
    using assms(2) by (simp add: build_message_def Let_def str_length_def windows_line [OF assms(1-3)])
qed

lemma long_call_prefix:
  "line_prefix windows_build long_call = ''[2022-04-01 12:00:00][test]: ''"
  "line_prefix example_build long_call = ''[2022-04-01 12:00:00][test]: ''"
  by (simp_all add: windows_build_def long_call_def example_build_def example_call_def
      line_prefix_def str_format_def str_copy_def str_timestamp_format_def c_str_def)

lemma long_call_text:
  "CHR 0x00 \<notin> set (arg_text long_call)" "length (arg_text long_call) = 5000"
  "arg_text long_call = replicate 5000 (CHR ''a'')"
  by (simp_all add: long_call_def)

lemma windows_build_fields:
  "CONF_FAMILY_WINDOWS windows_build" "sizeof_aLine windows_build = 4096"
  "after_aLine windows_build = ''stack''" "\<not> CONF_FAMILY_WINDOWS example_build"
  "sizeof_aLine example_build = 4096"
  by (simp_all add: windows_build_def example_build_def)

text \<open>
  Claim C8 holds on the \<^verbatim>\<open>vsnprintf\<close> branch (\<open>posix_message\<close>) and fails on the
  \<^verbatim>\<open>_vsnprintf\<close> branch. In the build with \<^verbatim>\<open>CONF_FAMILY_WINDOWS\<close>, the call with the
  message of 5000 bytes builds a record whose \<open>m_LineLength\<close> is 4101, beyond the 4096
  bytes of \<open>m_aLine\<close>: the bytes from offset 4096 on are those that follow the array in
  memory. The record is delivered with that length, and a \<^verbatim>\<open>CLoggerAsync\<close> writes 4101 bytes
  from the array. The same call without \<^verbatim>\<open>CONF_FAMILY_WINDOWS\<close> gives a line of 4095 bytes.
\<close>

theorem log_log_impl_windows_overrun:
  "sizeof_aLine windows_build = 4096 \<and>
   m_LineLength (build_message windows_build long_call) = 4101 \<and>
   drop 4096 (m_aLine (build_message windows_build long_call)) = ''stack'' \<and>
   m_LineLength (build_message example_build long_call) = 4095 \<and>
   (\<exists>w'. log_log_impl 3 windows_build 0 long_call (example_world\<lparr>global_logger := Some 2\<rparr>)
       = Some (Inr w') \<and>
      received 2 (calls w') = [build_message windows_build long_call]) \<and>
   length (aio_queued [] (CLoggerAsync_Log False (build_message windows_build long_call) []))
     = 4101"
proof -
  have fits: "sizeof_aLine windows_build - length (line_prefix windows_build long_call)
      \<le> length (arg_text long_call)"
    by (simp add: long_call_prefix long_call_text windows_build_fields)
  have pos: "0 < sizeof_aLine windows_build" "0 < sizeof_aLine example_build"
    by (simp_all add: windows_build_fields)
  have 1: "m_LineLength (build_message windows_build long_call) = 4101"
    using windows_LineLength [OF windows_build_fields(1) fits long_call_text(1) pos(1)]
    by (simp add: windows_build_fields str_length_def c_str_def)
  have line: "m_aLine (build_message windows_build long_call) =
      line_prefix windows_build long_call
        @ take (4096 - length (line_prefix windows_build long_call)) (arg_text long_call)
        @ ''stack''"
    using windows_line [OF windows_build_fields(1) fits long_call_text(1)]
    by (simp add: build_message_def Let_def windows_build_fields c_str_def)
  have 2: "drop 4096 (m_aLine (build_message windows_build long_call)) = ''stack''"
    unfolding line by (simp add: long_call_prefix long_call_text)
  have "length (m_aLine (build_message example_build long_call)) = 4095"
    unfolding posix_message(2) [OF windows_build_fields(4) pos(2)]
    by (simp add: c_str_id long_call_text(1) windows_build_fields del: append_Cons)
      (simp add: long_call_text(2))
  then have 3: "m_LineLength (build_message example_build long_call) = 4095"
    by (simp add: posix_message(3) [OF windows_build_fields(4) pos(2)])
  let ?w = "example_world\<lparr>global_logger := Some 2\<rparr>"
  have pre: "\<not> in_logger ?w 0" "effective_logger ?w 0 = Some 2"
    "well_formed (\<lambda>a. a) (heap ?w)" "heap ?w 2 \<noteq> None" "(\<lambda>a. a) (2::nat) < 3"
    using example_world_well_formed
    by (simp_all add: example_world_def initial_world_def effective_logger_def)
  have r0: "received 2 (calls ?w) = []"
    by (simp add: example_world_def initial_world_def received_def)
  from log_log_impl_received [OF pre, of windows_build long_call]
  have 4: "\<exists>w'. log_log_impl 3 windows_build 0 long_call ?w = Some (Inr w') \<and>
      received 2 (calls w') = [build_message windows_build long_call]"
    unfolding r0 append_Nil by blast
  have "length (m_aLine (build_message windows_build long_call)) = 4101"
    unfolding line by (simp add: long_call_prefix long_call_text)
  then have 5: "length (aio_queued []
      (CLoggerAsync_Log False (build_message windows_build long_call) [])) = 4101"
    by (simp add: CLoggerAsync_Log_ops 1)
  from windows_build_fields(2) 1 2 3 4 5 show ?thesis by blast
qed

end
